theory Spec2Isabelle
  imports Complex_Main "HOL-Library.AList"
begin

section \<open>Shared vocabulary\<close>

text \<open>
  JavaScript numbers that hold timestamps and durations (milliseconds, values of
  \<^verbatim>\<open>Date.now()\<close>) are integers here, and so are the request counts of the rate limiter, which
  the code subtracts from one another. The configured thresholds, the cache capacity and the
  retry budget are natural numbers: the environment schema only admits digit strings for them.
  Only the retry delay, which is multiplied by a random jitter, is a double that is not an
  integer: it is computed with the rounding of double-precision arithmetic.

  Every component keeps its state in a \<^verbatim>\<open>Map\<close> of its own and runs on one event loop, so a
  method is a function from the state before the call to the state after it, and the clock
  readings of a call are arguments. An async method is cut at its \<^verbatim>\<open>await\<close>; where a whole
  call is given as one function, nothing else touches the component while it is suspended.
\<close>

text \<open>
  The error classes of \<^verbatim>\<open>custom.errors\<close> that the resilience layer raises, each with its
  message and the payload fields given to its constructor. \<open>JsError name message\<close> is any error
  that is not an application error: a plain \<^verbatim>\<open>Error\<close>, or the \<^verbatim>\<open>AbortError\<close> of a cancelled
  request.
\<close>

datatype app_error =
    NetworkError string "string option" "int option"
  | ValidationError string "string option"
  | ServiceUnavailableError string "int option" string "int option"
  | TimeoutError string string
  | RateLimitError string "int option"
  | InternalServerError string "app_error option" nat int "string option"
  | JsError string string

fun message :: "app_error \<Rightarrow> string" where
  "message (NetworkError m url status) = m"
| "message (ValidationError m field) = m"
| "message (ServiceUnavailableError m retryAfter circuit lastFailure) = m"
| "message (TimeoutError m operation) = m"
| "message (RateLimitError m retryAfter) = m"
| "message (InternalServerError m cause maxRetries baseDelayMs lastError) = m"
| "message (JsError name m) = m"

text \<open>The \<^verbatim>\<open>code\<close> property that each class passes to \<^verbatim>\<open>AppError\<close>; a foreign error has none.\<close>

fun code :: "app_error \<Rightarrow> string option" where
  "code (NetworkError m url status) = Some ''NETWORK_ERROR''"
| "code (ValidationError m field) = Some ''VALIDATION_ERROR''"
| "code (ServiceUnavailableError m retryAfter circuit lastFailure) = Some ''SERVICE_UNAVAILABLE''"
| "code (TimeoutError m operation) = Some ''TIMEOUT_ERROR''"
| "code (RateLimitError m retryAfter) = Some ''RATE_LIMIT_EXCEEDED''"
| "code (InternalServerError m cause maxRetries baseDelayMs lastError) = Some ''INTERNAL_SERVER_ERROR''"
| "code (JsError name m) = None"

text \<open>
  An asynchronous operation handed to one of the wrappers: run in a world \<open>'w\<close> (whatever the
  closure reads and writes), it either throws or returns, and leaves a new world.
\<close>

type_synonym ('a, 'w) operation = "'w \<Rightarrow> (app_error + 'a) \<times> 'w"

text \<open>
  Vocabulary for scenarios: the world after \<open>n\<close> invocations of an operation, and a list of
  operations that, invoked one after the other from a world, all throw, or all return. Only
  the invocations that are made are constrained: an operation may behave otherwise in a world
  it is not invoked in.
\<close>

fun worldAfter :: "('a, 'w) operation \<Rightarrow> nat \<Rightarrow> 'w \<Rightarrow> 'w" where
  "worldAfter operation 0 w = w"
| "worldAfter operation (Suc n) w = worldAfter operation n (snd (operation w))"

fun fail_in_turn :: "('a, 'w) operation list \<Rightarrow> 'w \<Rightarrow> bool" where
  "fail_in_turn [] w = True"
| "fail_in_turn (operation # operations) w =
     (isl (fst (operation w)) \<and> fail_in_turn operations (snd (operation w)))"

fun succeed_in_turn :: "('a, 'w) operation list \<Rightarrow> 'w \<Rightarrow> bool" where
  "succeed_in_turn [] w = True"
| "succeed_in_turn (operation # operations) w =
     (\<not> isl (fst (operation w)) \<and> succeed_in_turn operations (snd (operation w)))"

text \<open>Decimal rendering of a number inside a template literal.\<close>

fun digit_char :: "nat \<Rightarrow> char" where
  "digit_char n = char_of (48 + n)"

function string_of_nat :: "nat \<Rightarrow> string" where
  "string_of_nat n = (if n < 10 then [digit_char n] else string_of_nat (n div 10) @ [digit_char (n mod 10)])"
  by pat_completeness auto
termination
  by (relation "measure id") auto

definition string_of_int :: "int \<Rightarrow> string" where
  "string_of_int i = (if i < 0 then CHR ''-'' # string_of_nat (nat (- i)) else string_of_nat (nat i))"

section \<open>CircuitBreaker\<close>

record CircuitBreakerOptions =
  timeoutMs :: int
  failureThreshold :: nat
  successThreshold :: nat

record CircuitState =
  failures :: nat
  lastFailureTime :: "int option"
  isOpen :: bool
  successCount :: nat

type_synonym circuit_states = "string \<rightharpoonup> CircuitState"

definition closedState :: CircuitState where
  "closedState = \<lparr>failures = 0, lastFailureTime = None, isOpen = False, successCount = 0\<rparr>"

definition getState :: "circuit_states \<Rightarrow> string \<Rightarrow> CircuitState" where
  "getState states key = (case states key of Some s \<Rightarrow> s | None \<Rightarrow> closedState)"

definition setState :: "circuit_states \<Rightarrow> string \<Rightarrow> CircuitState \<Rightarrow> circuit_states" where
  "setState states key state = states(key \<mapsto> state)"

text \<open>\<^verbatim>\<open>state.lastFailureTime || 0\<close>: null and 0 are both falsy.\<close>

definition lastFailureOrZero :: "CircuitState \<Rightarrow> int" where
  "lastFailureOrZero state = (case lastFailureTime state of None \<Rightarrow> 0 | Some t \<Rightarrow> t)"

text \<open>
  \<^verbatim>\<open>state.lastFailureTime && now - state.lastFailureTime > timeoutMs\<close>: the guard that lets
  an open circuit be tried again.
\<close>

definition timeoutElapsed :: "CircuitBreakerOptions \<Rightarrow> int \<Rightarrow> CircuitState \<Rightarrow> bool" where
  "timeoutElapsed opts now state =
     (case lastFailureTime state of
        None \<Rightarrow> False
      | Some t \<Rightarrow> t \<noteq> 0 \<and> now - t > timeoutMs opts)"

definition retryAfterSeconds :: "CircuitBreakerOptions \<Rightarrow> int \<Rightarrow> CircuitState \<Rightarrow> int" where
  "retryAfterSeconds opts now state =
     \<lceil>real_of_int (timeoutMs opts - (now - lastFailureOrZero state)) / 1000\<rceil>"

definition unavailableMessage :: "string \<Rightarrow> string" where
  "unavailableMessage key = ''Service '' @ key @ '' is temporarily unavailable due to circuit breaker''"

text \<open>
  \<^verbatim>\<open>CircuitBreaker.execute\<close> has one suspension point, \<^verbatim>\<open>await operation()\<close>. The part
  before it is \<open>admit\<close>: it either throws the service-unavailable error or lets the call
  through, closing an open circuit whose timeout has elapsed. The part after it is \<open>onSuccess\<close>
  or \<open>onFailure\<close>, which re-reads the state of the key; \<open>now\<close> is the clock read on entry.
\<close>

definition admit :: "CircuitBreakerOptions \<Rightarrow> string \<Rightarrow> int \<Rightarrow> circuit_states \<Rightarrow> app_error + circuit_states" where
  "admit opts key now states =
     (let state = getState states key in
      if isOpen state then
        if timeoutElapsed opts now state then
          Inr (setState states key (state\<lparr>isOpen := False, successCount := 0\<rparr>))
        else
          let retryAfter = retryAfterSeconds opts now state in
          Inl (ServiceUnavailableError (unavailableMessage key) (Some retryAfter) key (lastFailureTime state))
      else Inr states)"

definition onSuccess :: "CircuitBreakerOptions \<Rightarrow> string \<Rightarrow> circuit_states \<Rightarrow> circuit_states" where
  "onSuccess opts key states =
     (let currentState = getState states key;
          successCount' = successCount currentState + 1
      in if successCount' \<ge> successThreshold opts then
           setState states key \<lparr>failures = 0, lastFailureTime = None, isOpen = False, successCount = 0\<rparr>
         else setState states key (currentState\<lparr>successCount := successCount'\<rparr>))"

definition onFailure :: "CircuitBreakerOptions \<Rightarrow> string \<Rightarrow> int \<Rightarrow> circuit_states \<Rightarrow> circuit_states" where
  "onFailure opts key now states =
     (let currentState = getState states key;
          failures' = failures currentState + 1;
          isOpen' = (failures' \<ge> failureThreshold opts)
      in setState states key
           \<lparr>failures = failures', lastFailureTime = Some now, isOpen = isOpen', successCount = 0\<rparr>)"

text \<open>
  One whole call with nothing else touching the breaker while the operation runs. The result is
  the outcome, the number of times the operation was invoked, the new state map and the new
  world.
\<close>

definition CircuitBreaker_execute ::
  "CircuitBreakerOptions \<Rightarrow> string \<Rightarrow> int \<Rightarrow> ('a, 'w) operation \<Rightarrow> circuit_states \<Rightarrow> 'w
     \<Rightarrow> (app_error + 'a) \<times> nat \<times> circuit_states \<times> 'w" where
  "CircuitBreaker_execute opts key now operation states w =
     (case admit opts key now states of
        Inl unavailable \<Rightarrow> (Inl unavailable, 0, states, w)
      | Inr admitted \<Rightarrow>
          (case operation w of
             (Inr result, w') \<Rightarrow> (Inr result, 1, onSuccess opts key admitted, w')
           | (Inl error, w') \<Rightarrow> (Inl error, 1, onFailure opts key now admitted, w')))"

text \<open>A sequence of calls on one key, each made after the previous one has settled.\<close>

fun CircuitBreaker_run ::
  "CircuitBreakerOptions \<Rightarrow> string \<Rightarrow> (int \<times> ('a, 'w) operation) list \<Rightarrow> circuit_states \<Rightarrow> 'w
     \<Rightarrow> ((app_error + 'a) \<times> nat) list \<times> circuit_states \<times> 'w" where
  "CircuitBreaker_run opts key [] states w = ([], states, w)"
| "CircuitBreaker_run opts key ((now, operation) # calls) states w =
     (case CircuitBreaker_execute opts key now operation states w of
        (outcome, invoked, states', w') \<Rightarrow>
          (case CircuitBreaker_run opts key calls states' w' of
             (outcomes, states'', w'') \<Rightarrow> ((outcome, invoked) # outcomes, states'', w'')))"

section \<open>RateLimiter\<close>

record RateLimitOptions =
  maxRequests :: int
  timeWindow :: int
  throwOnLimit :: bool

record RateLimitState =
  count :: int
  resetTime :: int

text \<open>The object \<^verbatim>\<open>isAllowed\<close> returns; \<open>resetAt\<close> is its \<^verbatim>\<open>resetTime\<close> property.\<close>

record Admission =
  allowed :: bool
  remaining :: int
  retryAfter :: "int option"
  resetAt :: int

type_synonym limiter_states = "string \<rightharpoonup> RateLimitState"

text \<open>
  \<^verbatim>\<open>if (now > state.resetTime) { state.count = 0; state.resetTime = now + timeWindow }\<close>,
  as a function of the state object.
\<close>

definition windowReset :: "RateLimitOptions \<Rightarrow> int \<Rightarrow> RateLimitState \<Rightarrow> RateLimitState" where
  "windowReset opts now state =
     (if now > resetTime state then state\<lparr>count := 0, resetTime := now + timeWindow opts\<rparr> else state)"

definition admission :: "RateLimitOptions \<Rightarrow> RateLimitState \<Rightarrow> Admission" where
  "admission opts state =
     \<lparr>allowed = True, remaining = max 0 (maxRequests opts - count state),
      retryAfter = Some 0, resetAt = resetTime state\<rparr>"

text \<open>
  \<^verbatim>\<open>const state = this.states.get(key) || {count: 0, resetTime: now + timeWindow}\<close>: for a
  key with a stored state, \<open>state\<close> is the stored object itself, so the two assignments of the
  window reset write into the map; for a key without one, \<open>state\<close> is a fresh object that is
  never stored. The function returns the admission and the state map after the call.
\<close>

definition isAllowed :: "RateLimitOptions \<Rightarrow> int \<Rightarrow> string \<Rightarrow> limiter_states \<Rightarrow> Admission \<times> limiter_states" where
  "isAllowed opts now key states =
     (case states key of
        Some stored \<Rightarrow>
          (let state = windowReset opts now stored
           in (admission opts state, states(key \<mapsto> state)))
      | None \<Rightarrow>
          (let state = windowReset opts now \<lparr>count = 0, resetTime = now + timeWindow opts\<rparr>
           in (admission opts state, states)))"

definition RateLimiter_getState :: "limiter_states \<Rightarrow> string \<Rightarrow> RateLimitState option" where
  "RateLimiter_getState states key = states key"

text \<open>How a template literal prints a number that may be undefined.\<close>

definition template_number :: "int option \<Rightarrow> string" where
  "template_number n = (case n of None \<Rightarrow> ''undefined'' | Some i \<Rightarrow> string_of_int i)"

text \<open>
  The \<^verbatim>\<open>catch\<close> block of \<^verbatim>\<open>execute\<close>: a rate-limit error of the wrapped function with a
  truthy \<^verbatim>\<open>retryAfter\<close> marks the key as exhausted until \<open>retryAfter\<close> seconds after \<open>now\<close>,
  the clock read inside the block.
\<close>

definition recordUpstreamLimit :: "RateLimitOptions \<Rightarrow> string \<Rightarrow> int \<Rightarrow> app_error \<Rightarrow> limiter_states \<Rightarrow> limiter_states" where
  "recordUpstreamLimit opts key now error states =
     (case error of
        RateLimitError m (Some seconds) \<Rightarrow>
          (if seconds \<noteq> 0 then
             (let state = (case states key of Some s \<Rightarrow> s | None \<Rightarrow> \<lparr>count = 0, resetTime = 0\<rparr>)
              in states(key \<mapsto> state\<lparr>resetTime := now + seconds * 1000, count := maxRequests opts\<rparr>))
           else states)
      | _ \<Rightarrow> states)"

text \<open>
  \<^verbatim>\<open>RateLimiter.execute\<close>, with \<open>now\<close> the clock read by the admission check and \<open>nowCatch\<close>
  the clock read in the \<^verbatim>\<open>catch\<close> block, and with nothing else touching the limiter while
  \<open>fn\<close> runs. The result is the outcome, the number of times \<open>fn\<close> was invoked, the new state map
  and the new world.
\<close>

definition RateLimiter_execute ::
  "RateLimitOptions \<Rightarrow> string \<Rightarrow> int \<Rightarrow> int \<Rightarrow> ('a, 'w) operation \<Rightarrow> limiter_states \<Rightarrow> 'w
     \<Rightarrow> (app_error + 'a) \<times> nat \<times> limiter_states \<times> 'w" where
  "RateLimiter_execute opts key now nowCatch fn states w =
     (case isAllowed opts now key states of
        (check, states1) \<Rightarrow>
          if \<not> allowed check then
            (if throwOnLimit opts then
               (Inl (RateLimitError
                       (''Rate limit exceeded. Try again in '' @ template_number (retryAfter check) @ '' seconds'')
                       (retryAfter check)), 0, states1, w)
             else (Inl (JsError ''Error'' ''Rate limit exceeded''), 0, states1, w))
          else
            (case fn w of
               (Inr result, w') \<Rightarrow> (Inr result, 1, states1, w')
             | (Inl error, w') \<Rightarrow> (Inl error, 1, recordUpstreamLimit opts key nowCatch error states1, w')))"

text \<open>A sequence of admission checks on one key, at the given clock readings.\<close>

fun RateLimiter_checks :: "RateLimitOptions \<Rightarrow> string \<Rightarrow> int list \<Rightarrow> limiter_states \<Rightarrow> Admission list \<times> limiter_states" where
  "RateLimiter_checks opts key [] states = ([], states)"
| "RateLimiter_checks opts key (now # later) states =
     (case isAllowed opts now key states of
        (check, states') \<Rightarrow>
          (case RateLimiter_checks opts key later states' of
             (checks, states'') \<Rightarrow> (check # checks, states'')))"

section \<open>Double-precision arithmetic\<close>

text \<open>
  A JavaScript number is an IEEE 754 double, and every arithmetic operation returns the double
  nearest to the exact result, a tie going to the even significand. \<open>toDouble\<close> is that
  rounding, on the reals: \<open>exponent x\<close> is the \<open>k\<close> with \<open>2^k \<le> x < 2^(k+1)\<close>, and the result
  is the nearest multiple of \<open>2^(k-52)\<close>. The exponent range is left unbounded (no overflow to
  infinity, no subnormal numbers); the numbers of the retry policy are far from both ends.
\<close>

definition roundHalfEven :: "real \<Rightarrow> int" where
  "roundHalfEven x =
     (let f = \<lfloor>x\<rfloor>; d = x - of_int f
      in if d < 1 / 2 then f else if 1 / 2 < d then f + 1 else if even f then f else f + 1)"

function exponent :: "real \<Rightarrow> int" where
  "exponent x =
     (if x \<le> 0 then 0
      else if 2 \<le> x then exponent (x / 2) + 1
      else if x < 1 then exponent (x * 2) - 1
      else 0)"
  by pat_completeness auto
termination
proof (relation "measure (\<lambda>x. nat \<bar>\<lfloor>log 2 x\<rfloor>\<bar>)")
  show "wf (measure (\<lambda>x. nat \<bar>\<lfloor>log 2 x\<rfloor>\<bar>))" by simp
next
  fix x :: real
  assume "\<not> x \<le> 0" "2 \<le> x"
  then have "log 2 (x / 2) = log 2 x - 1" "1 \<le> log 2 x"
    by (simp_all add: log_divide le_log_iff)
  then have "\<lfloor>log 2 (x / 2)\<rfloor> = \<lfloor>log 2 x\<rfloor> - 1" "1 \<le> \<lfloor>log 2 x\<rfloor>"
    by (simp_all add: le_floor_iff)
  then show "(x / 2, x) \<in> measure (\<lambda>x. nat \<bar>\<lfloor>log 2 x\<rfloor>\<bar>)" by simp
next
  fix x :: real
  assume "\<not> x \<le> 0" "\<not> 2 \<le> x" "x < 1"
  then have "log 2 (x * 2) = log 2 x + 1" "log 2 x < 0"
    by (simp_all add: log_mult)
  then have step: "\<lfloor>log 2 (x * 2)\<rfloor> = \<lfloor>log 2 x\<rfloor> + 1" and neg: "\<lfloor>log 2 x\<rfloor> \<le> - 1"
    by (simp_all add: floor_le_iff)
  have "nat \<bar>\<lfloor>log 2 x\<rfloor> + 1\<bar> < nat \<bar>\<lfloor>log 2 x\<rfloor>\<bar>"
    using neg by linarith
  then show "(x * 2, x) \<in> measure (\<lambda>x. nat \<bar>\<lfloor>log 2 x\<rfloor>\<bar>)"
    by (simp add: step)
qed

declare exponent.simps [simp del]

definition toDouble :: "real \<Rightarrow> real" where
  "toDouble x =
     (if x = 0 then 0
      else (let e = exponent \<bar>x\<bar>;
                m = roundHalfEven (\<bar>x\<bar> * 2 powi (52 - e))
            in sgn x * (of_int m * 2 powi (e - 52))))"


section \<open>RetryPolicy\<close>

text \<open>
  \<^verbatim>\<open>retryOperation(operation, maxRetries, baseDelayMs)\<close>. \<open>random\<close> is the stream of values of
  \<^verbatim>\<open>Math.random()\<close>: the loop draws one value per failed attempt, so \<open>random attempt\<close> is the
  draw of that attempt. The loop carries the last error, the number of invocations of the
  operation so far, the delays it has waited so far and the world. A delay is the value the
  loop passes to \<^verbatim>\<open>setTimeout\<close>. Every thrown value is an \<^verbatim>\<open>Error\<close> here, so \<^verbatim>\<open>lastError\<close> is
  the thrown error itself.
\<close>

text \<open>
  \<^verbatim>\<open>1 + Math.random() * 0.1\<close> and \<^verbatim>\<open>baseDelayMs * Math.pow(2, attempt) * jitter\<close>, each
  operation rounded; the literal \<^verbatim>\<open>0.1\<close> is the double nearest to one tenth, and a power of
  two is exact, so that rounding \<open>baseDelayMs * 2^attempt\<close> once is rounding \<open>baseDelayMs\<close> to
  a double and scaling it.
\<close>

definition jitterOf :: "real \<Rightarrow> real" where
  "jitterOf r = toDouble (1 + toDouble (r * toDouble (1 / 10)))"

definition delayOf :: "int \<Rightarrow> nat \<Rightarrow> real \<Rightarrow> real" where
  "delayOf baseDelayMs attempt jitter = toDouble (toDouble (real_of_int baseDelayMs * 2 ^ attempt) * jitter)"

definition exhaustedMessage :: "nat \<Rightarrow> app_error option \<Rightarrow> string" where
  "exhaustedMessage maxRetries lastError =
     ''Operation failed after '' @ string_of_nat maxRetries @ '' attempts: ''
       @ (case lastError of None \<Rightarrow> ''undefined'' | Some e \<Rightarrow> message e)"

function retryLoop ::
  "nat \<Rightarrow> int \<Rightarrow> (nat \<Rightarrow> real) \<Rightarrow> ('a, 'w) operation \<Rightarrow> nat \<Rightarrow> app_error option \<Rightarrow> nat \<Rightarrow> real list \<Rightarrow> 'w
     \<Rightarrow> (app_error + 'a) \<times> nat \<times> real list \<times> 'w" where
  "retryLoop maxRetries baseDelayMs random operation attempt lastError invoked waits w =
     (if attempt < maxRetries then
        (case operation w of
           (Inr result, w') \<Rightarrow> (Inr result, invoked + 1, waits, w')
         | (Inl error, w') \<Rightarrow>
             (let jitter = jitterOf (random attempt);
                  delay = delayOf baseDelayMs attempt jitter;
                  waits' = (if int attempt < int maxRetries - 1 then waits @ [delay] else waits)
              in retryLoop maxRetries baseDelayMs random operation (attempt + 1) (Some error)
                   (invoked + 1) waits' w'))
      else
        (Inl (InternalServerError (exhaustedMessage maxRetries lastError) lastError
                maxRetries baseDelayMs (map_option message lastError)),
         invoked, waits, w))"
  by pat_completeness auto
termination
  by (relation "measure (\<lambda>(maxRetries, baseDelayMs, random, operation, attempt, rest). maxRetries - attempt)") auto

declare retryLoop.simps [simp del]

definition retryOperation ::
  "('a, 'w) operation \<Rightarrow> nat \<Rightarrow> int \<Rightarrow> (nat \<Rightarrow> real) \<Rightarrow> 'w \<Rightarrow> (app_error + 'a) \<times> nat \<times> real list \<times> 'w" where
  "retryOperation operation maxRetries baseDelayMs random w =
     retryLoop maxRetries baseDelayMs random operation 0 None 0 [] w"

text \<open>
  The delay after the failed attempt \<open>i\<close> as the specification words it: the exact product
  \<open>baseDelayMs * 2^i * jitter\<close> for a jitter in \<open>[1.0, 1.1)\<close>.
\<close>

definition backoffDelay :: "int \<Rightarrow> nat \<Rightarrow> real \<Rightarrow> bool" where
  "backoffDelay baseDelayMs i delay =
     (\<exists>jitter. 1 \<le> jitter \<and> jitter < 11 / 10 \<and> delay = real_of_int baseDelayMs * 2 ^ i * jitter)"

section \<open>RequestDeduplicator\<close>

text \<open>
  Promises are numbered; \<open>settled\<close> tells how a promise was resolved or rejected, if it was.
  \<^verbatim>\<open>execute\<close> is an async function with one suspension point, \<^verbatim>\<open>await fn()\<close>, and the event
  loop runs each of its two parts without interleaving:
  \<^item> \<open>execute_begin\<close> is the part before it. With a pending entry for the key it returns the
    entry's promise (\<open>Joined\<close>) and does not call \<open>fn\<close>. Without one it creates a promise, stores
    the entry with the clock reading, and calls \<open>fn\<close> (\<open>Started\<close>); \<open>invocations\<close> counts these
    calls of \<open>fn\<close>.
  \<^item> \<open>execute_settle\<close> is the part after it, run when the promise returned by \<open>fn\<close> settles
    with \<open>outcome\<close>: it resolves or rejects the shared promise, deletes the entry of the key in
    the \<^verbatim>\<open>finally\<close> block, whichever execution stored it, and returns or throws the outcome to
    the caller that started it.
  \<^item> \<open>Deduplicator_cleanup\<close> is the private method \<^verbatim>\<open>cleanup\<close>, which the interval timer of the
    constructor runs every \<open>cleanupInterval\<close> milliseconds: it deletes every entry older than
    \<open>maxAge\<close>, settled or not.

  What a caller that joined observes is the settlement of the shared promise: returning the
  promise from the async function attaches a handler to it, and \<open>handled\<close> is the set of the
  promises that have one. The caller that started the execution receives the outcome from its
  own call, not from the shared promise. So a shared promise that is rejected when nobody has
  joined has no handler, and the runtime reports an unhandled rejection for it:
  \<open>unhandledRejections\<close> lists these promises.
\<close>

record DeduplicatorOptions =
  maxAge :: int
  cleanupInterval :: int


record PendingRequest =
  promise :: nat
  timestamp :: int

record 'a Deduplicator =
  pendingRequests :: "string \<rightharpoonup> PendingRequest"
  settled :: "nat \<rightharpoonup> (app_error + 'a)"
  handled :: "nat set"
  unhandledRejections :: "nat list"
  nextPromise :: nat
  invocations :: nat





definition Deduplicator_cleanup :: "DeduplicatorOptions \<Rightarrow> int \<Rightarrow> 'a Deduplicator \<Rightarrow> 'a Deduplicator" where
  "Deduplicator_cleanup opts now d =
     d\<lparr>pendingRequests :=
         (\<lambda>key. case pendingRequests d key of
                   None \<Rightarrow> None
                 | Some request \<Rightarrow>
                     if now - timestamp request > maxAge opts then None else Some request)\<rparr>"

text \<open>The runs of the timer at the clock readings \<open>nows\<close>, in turn.\<close>

fun Deduplicator_cleanups :: "DeduplicatorOptions \<Rightarrow> int list \<Rightarrow> 'a Deduplicator \<Rightarrow> 'a Deduplicator" where
  "Deduplicator_cleanups opts [] d = d"
| "Deduplicator_cleanups opts (now # nows) d =
     Deduplicator_cleanups opts nows (Deduplicator_cleanup opts now d)"


section \<open>Cache\<close>

text \<open>
  \<open>onEvict\<close> tells whether an eviction callback is configured. The callback is foreign code
  whose errors are caught and logged; what the cache does with it is recorded as the list of
  \<open>(key, value)\<close> pairs it was called with.
\<close>

record CacheOptions =
  ttl :: int
  maxSize :: nat
  staleWhileRevalidate :: bool
  onEvict :: bool

record 'v CacheItem =
  cvalue :: 'v
  expiresAt :: int
  lastAccess :: int
  isFetching :: bool

text \<open>
  The store is a JavaScript \<^verbatim>\<open>Map\<close>: its entries are kept in insertion order, \<^verbatim>\<open>set\<close> on a
  present key replaces the value where it stands, and a new key goes to the end. That is an
  association list with \<open>AList.update\<close> and \<open>AList.delete\<close>.
\<close>

type_synonym 'v store = "(string \<times> 'v CacheItem) list"

definition Cache_set :: "CacheOptions \<Rightarrow> int \<Rightarrow> string \<Rightarrow> 'v \<Rightarrow> int option \<Rightarrow> 'v store \<Rightarrow> 'v store" where
  "Cache_set opts now key v ttl_arg store =
     (let expiresAt' = now + (case ttl_arg of None \<Rightarrow> ttl opts | Some t \<Rightarrow> t)
      in AList.update key \<lparr>cvalue = v, expiresAt = expiresAt', lastAccess = now, isFetching = False\<rparr> store)"

text \<open>
  \<^verbatim>\<open>get\<close> returns the value or \<^verbatim>\<open>undefined\<close> (\<open>None\<close>) and the store after the call: the
  assignments to \<^verbatim>\<open>item.isFetching\<close> and \<^verbatim>\<open>item.lastAccess\<close> write into the stored item.
\<close>

definition Cache_get :: "CacheOptions \<Rightarrow> int \<Rightarrow> string \<Rightarrow> 'v store \<Rightarrow> 'v option \<times> 'v store" where
  "Cache_get opts now key store =
     (case map_of store key of
        None \<Rightarrow> (None, store)
      | Some item \<Rightarrow>
          if expiresAt item \<le> now then
            (if \<not> staleWhileRevalidate opts \<or> isFetching item then (None, AList.delete key store)
             else (Some (cvalue item), AList.update key (item\<lparr>isFetching := True\<rparr>) store))
          else (Some (cvalue item), AList.update key (item\<lparr>lastAccess := now\<rparr>) store))"

text \<open>\<^verbatim>\<open>evict\<close>, on the store and the log of callback calls.\<close>

definition evict ::
  "CacheOptions \<Rightarrow> string \<Rightarrow> 'v CacheItem \<Rightarrow> 'v store \<times> (string \<times> 'v) list \<Rightarrow> 'v store \<times> (string \<times> 'v) list" where
  "evict opts key item = (\<lambda>(store, evicted).
     (AList.delete key store, if onEvict opts then evicted @ [(key, cvalue item)] else evicted))"

text \<open>
  The first loop of \<^verbatim>\<open>cleanup\<close>, over the entries of the store in insertion order. Deleting
  the entry being visited does not disturb the iteration of a \<^verbatim>\<open>Map\<close>, so the loop visits
  the entries the store had when it started.
\<close>

fun evictExpired ::
  "CacheOptions \<Rightarrow> int \<Rightarrow> (string \<times> 'v CacheItem) list \<Rightarrow> 'v store \<times> (string \<times> 'v) list
     \<Rightarrow> 'v store \<times> (string \<times> 'v) list" where
  "evictExpired opts now [] acc = acc"
| "evictExpired opts now ((key, item) # entries) acc =
     evictExpired opts now entries (if expiresAt item \<le> now then evict opts key item acc else acc)"

text \<open>
  The second loop:
  \<^verbatim>\<open>while (this.store.size > maxSize && entries.length > 0) { evict(entries.shift()) }\<close>.
\<close>

fun evictOldest ::
  "CacheOptions \<Rightarrow> (string \<times> 'v CacheItem) list \<Rightarrow> 'v store \<times> (string \<times> 'v) list
     \<Rightarrow> 'v store \<times> (string \<times> 'v) list" where
  "evictOldest opts [] acc = acc"
| "evictOldest opts ((key, item) # entries) acc =
     (if length (fst acc) > maxSize opts then evictOldest opts entries (evict opts key item acc) else acc)"

text \<open>
  \<^verbatim>\<open>cleanup\<close>. The entries are sorted by \<^verbatim>\<open>(a, b) => a[1].lastAccess - b[1].lastAccess\<close>;
  \<^verbatim>\<open>Array.prototype.sort\<close> is stable, as \<open>sort_key\<close> is.
\<close>

definition cleanup :: "CacheOptions \<Rightarrow> int \<Rightarrow> 'v store \<Rightarrow> 'v store \<times> (string \<times> 'v) list" where
  "cleanup opts now store =
     (let swept = evictExpired opts now store (store, [])
      in if length (fst swept) > maxSize opts then
           (let entries = sort_key (\<lambda>entry. lastAccess (snd entry)) (fst swept)
            in evictOldest opts entries swept)
         else swept)"

text \<open>
  Vocabulary for what a cleanup pass does: whether an entry has expired at \<open>now\<close>, the entries
  that have not (in insertion order), the least recently accessed of those that exceed the
  capacity, and what the eviction callback is told about an entry.
\<close>

definition expired :: "int \<Rightarrow> (string \<times> 'v CacheItem) \<Rightarrow> bool" where
  "expired now entry = (expiresAt (snd entry) \<le> now)"

definition liveEntries :: "int \<Rightarrow> 'v store \<Rightarrow> 'v store" where
  "liveEntries now store = filter (\<lambda>entry. \<not> expired now entry) store"

definition oldestEntries :: "CacheOptions \<Rightarrow> int \<Rightarrow> 'v store \<Rightarrow> 'v store" where
  "oldestEntries opts now store =
     take (length (liveEntries now store) - maxSize opts)
       (sort_key (\<lambda>entry. lastAccess (snd entry)) (liveEntries now store))"

definition notified :: "(string \<times> 'v CacheItem) \<Rightarrow> string \<times> 'v" where
  "notified entry = (fst entry, cvalue (snd entry))"

text \<open>
  \<^verbatim>\<open>compareAndSet\<close>. \<open>stringify\<close> is \<^verbatim>\<open>JSON.stringify\<close> on the cached values; \<open>nowGet\<close> and
  \<open>nowSet\<close> are the clock readings of the \<^verbatim>\<open>get\<close> and of the \<^verbatim>\<open>set\<close>, and nothing else
  touches the cache between the two.
\<close>

datatype comparison = Initial | Changed | Unchanged

definition compareAndSet ::
  "CacheOptions \<Rightarrow> ('v \<Rightarrow> string) \<Rightarrow> int \<Rightarrow> int \<Rightarrow> string \<Rightarrow> 'v \<Rightarrow> 'v store \<Rightarrow> comparison \<times> 'v store" where
  "compareAndSet opts stringify nowGet nowSet key newValue store =
     (case Cache_get opts nowGet key store of
        (previousValue, store1) \<Rightarrow>
          (let store2 = Cache_set opts nowSet key newValue None store1
           in case previousValue of
                None \<Rightarrow> (Initial, store2)
              | Some previous \<Rightarrow>
                  if stringify previous = stringify newValue then (Unchanged, store2)
                  else (Changed, store2)))"

section \<open>ContentFetcher\<close>

text \<open>
  The response of \<^verbatim>\<open>node-fetch\<close>, as far as the fetcher reads it. \<^verbatim>\<open>res.ok\<close> is true for
  the statuses 200 to 299.
\<close>

record Response =
  status :: int
  body :: string
  url :: string

definition ok :: "Response \<Rightarrow> bool" where
  "ok res = (200 \<le> status res \<and> status res < 300)"

record FetchResult =
  content :: string
  finalUrl :: string

text \<open>
  \<^verbatim>\<open>fetchWithRetry\<close>, the attempt that \<^verbatim>\<open>ContentFetcher.fetch\<close> hands to the retry policy.
  \<open>network\<close> is the call \<^verbatim>\<open>fetch(url, fetchOptions)\<close> with the abort signal of the ten-second
  timer: it returns a response or throws, and an attempt that outlives the timer throws the
  \<^verbatim>\<open>AbortError\<close> of the signal, \<open>JsError ''AbortError'' m\<close>. The \<^verbatim>\<open>catch\<close> block clears the timer
  and rethrows what it caught. The world of the attempt is the cache store and the world of the
  network.
\<close>

definition fetchWithRetry ::
  "CacheOptions \<Rightarrow> string \<Rightarrow> int \<Rightarrow> (Response, 'w) operation
     \<Rightarrow> (FetchResult, FetchResult store \<times> 'w) operation" where
  "fetchWithRetry opts target now network = (\<lambda>(store, w).
     (case network w of
        (Inl e, w') \<Rightarrow> (Inl e, (store, w'))
      | (Inr res, w') \<Rightarrow>
          if \<not> ok res then
            (Inl (NetworkError ''Failed to fetch content'' (Some target) (Some (status res))), (store, w'))
          else
            (let result = \<lparr>content = body res, finalUrl = (if url res = [] then target else url res)\<rparr>
             in (Inr result, (Cache_set opts now (''fetch:'' @ target) result None store, w')))))"

section \<open>CircuitBreaker: properties\<close>

lemma getState_setState: "getState (setState states key state) key = state"
  by (simp add: getState_def setState_def)

lemma execute_closed_failure:
  assumes "\<not> isOpen (getState states key)" and "isl (fst (operation w))"
  shows "CircuitBreaker_execute opts key now operation states w =
           (fst (operation w), 1, onFailure opts key now states, snd (operation w))"
  using assms
  by (cases "operation w"; cases "fst (operation w)")
     (auto simp: CircuitBreaker_execute_def admit_def)

lemma execute_closed_success:
  assumes "\<not> isOpen (getState states key)" and "\<not> isl (fst (operation w))"
  shows "CircuitBreaker_execute opts key now operation states w =
           (fst (operation w), 1, onSuccess opts key states, snd (operation w))"
  using assms
  by (cases "operation w"; cases "fst (operation w)")
     (auto simp: CircuitBreaker_execute_def admit_def)

lemma getState_onFailure:
  "getState (onFailure opts key now states) key =
     \<lparr>failures = failures (getState states key) + 1, lastFailureTime = Some now,
      isOpen = (failures (getState states key) + 1 \<ge> failureThreshold opts), successCount = 0\<rparr>"
  by (simp add: onFailure_def Let_def getState_setState)

lemma getState_onSuccess:
  "getState (onSuccess opts key states) key =
     (if successCount (getState states key) + 1 \<ge> successThreshold opts then closedState
      else (getState states key)\<lparr>successCount := successCount (getState states key) + 1\<rparr>)"
  by (simp add: onSuccess_def Let_def getState_setState closedState_def)

lemma execute_trial:
  assumes "isOpen (getState states key)" and "timeoutElapsed opts now (getState states key)"
  shows "CircuitBreaker_execute opts key now operation states w =
           (fst (operation w), 1,
            (if isl (fst (operation w))
             then onFailure opts key now (setState states key ((getState states key)\<lparr>isOpen := False, successCount := 0\<rparr>))
             else onSuccess opts key (setState states key ((getState states key)\<lparr>isOpen := False, successCount := 0\<rparr>))),
            snd (operation w))"
  using assms
  by (cases "operation w"; cases "fst (operation w)")
     (auto simp: CircuitBreaker_execute_def admit_def Let_def)

lemma run_successes:
  assumes "\<not> isOpen (getState states key)"
    and "succeed_in_turn (map snd calls) w"
    and "successCount (getState states key) + length calls = successThreshold opts"
    and "calls \<noteq> []"
    and "CircuitBreaker_run opts key calls states w = (outcomes, states', w')"
  shows "getState states' key = closedState \<and> map snd outcomes = replicate (length calls) 1
         \<and> (\<forall>out \<in> set outcomes. \<not> isl (fst out))"
  using assms
proof (induction calls arbitrary: states w outcomes)
  case Nil
  then show ?case by simp
next
  case (Cons c calls)
  obtain now operation where c: "c = (now, operation)" by (cases c)
  have succ: "\<not> isl (fst (operation w))"
    using Cons.prems(2) c by simp
  have later: "succeed_in_turn (map snd calls) (snd (operation w))"
    using Cons.prems(2) c by simp
  have ex: "CircuitBreaker_execute opts key now operation states w =
           (fst (operation w), 1, onSuccess opts key states, snd (operation w))"
    using Cons.prems(1) succ by (rule execute_closed_success)
  obtain outs where run: "CircuitBreaker_run opts key calls (onSuccess opts key states) (snd (operation w)) = (outs, states', w')"
    and outcomes: "outcomes = (fst (operation w), 1) # outs"
    using Cons.prems(5) c ex by (auto split: prod.splits)
  show ?case
  proof (cases calls)
    case Nil
    then have "successCount (getState states key) + 1 = successThreshold opts"
      using Cons.prems(3) by simp
    then have "getState (onSuccess opts key states) key = closedState"
      by (simp add: getState_onSuccess)
    then show ?thesis
      using Nil run outcomes succ by simp
  next
    case (Cons c' calls')
    then have lt: "\<not> successCount (getState states key) + 1 \<ge> successThreshold opts"
      using Cons.prems(3) by simp
    have st: "getState (onSuccess opts key states) key
        = (getState states key)\<lparr>successCount := successCount (getState states key) + 1\<rparr>"
      using lt by (simp add: getState_onSuccess)
    have "getState states' key = closedState \<and> map snd outs = replicate (length calls) 1
         \<and> (\<forall>out \<in> set outs. \<not> isl (fst out))"
    proof (rule Cons.IH [OF _ _ _ _ run])
      show "\<not> isOpen (getState (onSuccess opts key states) key)"
        using st Cons.prems(1) by simp
      show "succeed_in_turn (map snd calls) (snd (operation w))" by (rule later)
      show "successCount (getState (onSuccess opts key states) key) + length calls = successThreshold opts"
        using st Cons.prems(3) by simp
      show "calls \<noteq> []" using Cons by simp
    qed
    then show ?thesis using outcomes succ by simp
  qed
qed


lemma retryAfter_positive:
  assumes "lastFailureTime state = Some t" and "now - t < timeoutMs opts"
  shows "0 < retryAfterSeconds opts now state"
  using assms by (simp add: retryAfterSeconds_def lastFailureOrZero_def)

text \<open>
  C3. For a key whose state is open and whose last failure is at most \<open>timeoutMs\<close> ago
  (a missing \<open>lastFailureTime\<close> counts as 0, as in \<^verbatim>\<open>now - null\<close>), \<open>execute\<close> throws the
  service-unavailable error carrying \<open>retryAfter = ceil((timeoutMs - elapsed) / 1000)\<close>, the
  operation is not invoked (zero invocations, the world is untouched), and the state map is
  unchanged.
\<close>

theorem execute_open_fails_fast:
  fixes operation :: "('a, 'w) operation"
  assumes "isOpen (getState states key)"
    and "now - lastFailureOrZero (getState states key) \<le> timeoutMs opts"
  shows "CircuitBreaker_execute opts key now operation states w =
           (Inl (ServiceUnavailableError (unavailableMessage key)
                   (Some \<lceil>real_of_int (timeoutMs opts - (now - lastFailureOrZero (getState states key))) / 1000\<rceil>)
                   key (lastFailureTime (getState states key))),
            0, states, w)"
proof -
  have "\<not> timeoutElapsed opts now (getState states key)"
    using assms(2) by (auto simp: timeoutElapsed_def lastFailureOrZero_def split: option.splits)
  then show ?thesis
    using assms(1) by (simp add: CircuitBreaker_execute_def admit_def retryAfterSeconds_def Let_def)
qed

theorem execute_open_fails_fast_witness:
  "isOpen (getState [''svc'' \<mapsto> \<lparr>failures = 3, lastFailureTime = Some 1000, isOpen = True, successCount = 0\<rparr>] ''svc'')
   \<and> 4500 - lastFailureOrZero (getState [''svc'' \<mapsto> \<lparr>failures = 3, lastFailureTime = Some 1000, isOpen = True, successCount = 0\<rparr>] ''svc'')
       \<le> timeoutMs \<lparr>timeoutMs = 10000, failureThreshold = 3, successThreshold = 2\<rparr>
   \<and> CircuitBreaker_execute \<lparr>timeoutMs = 10000, failureThreshold = 3, successThreshold = 2\<rparr> ''svc'' 4500
         (\<lambda>w::nat. (Inr (7::nat), Suc w))
         [''svc'' \<mapsto> \<lparr>failures = 3, lastFailureTime = Some 1000, isOpen = True, successCount = 0\<rparr>] 0
       = (Inl (ServiceUnavailableError (unavailableMessage ''svc'') (Some 7) ''svc'' (Some 1000)), 0,
          [''svc'' \<mapsto> \<lparr>failures = 3, lastFailureTime = Some 1000, isOpen = True, successCount = 0\<rparr>], 0)"
  using execute_open_fails_fast
    [of "[''svc'' \<mapsto> \<lparr>failures = 3, lastFailureTime = Some 1000, isOpen = True, successCount = 0\<rparr>]"
        "''svc''" 4500 "\<lparr>timeoutMs = 10000, failureThreshold = 3, successThreshold = 2\<rparr>"
        "\<lambda>w::nat. (Inr (7::nat), Suc w)" 0]
  by (simp add: getState_def lastFailureOrZero_def)

text \<open>
  C4. With \<open>failureThreshold = 3\<close>, three calls in a row on a key with no recorded failures
  whose operations throw when they are invoked leave the circuit open, with three failures
  recorded and the time of the third. A fourth call made less than \<open>timeoutMs\<close> after the third
  failure throws the service-unavailable error with a positive retry-after, without invoking
  its operation and without changing anything. A call made more than \<open>timeoutMs\<close> after the
  third failure invokes its operation, whatever it is. If the operation of that call and
  those of the calls after it return when they are invoked, \<open>successThreshold\<close> of them in
  all, the state of the key is back to
  \<open>{failures 0, successCount 0, lastFailureTime null, isOpen false}\<close>. Clock readings are
  values of \<^verbatim>\<open>Date.now()\<close>, hence not 0: the code tests \<^verbatim>\<open>state.lastFailureTime\<close> for
  truthiness before it compares the elapsed time.
\<close>

theorem circuit_opens_and_recovers:
  fixes f1 f2 f3 g k h :: "('a, 'w) operation"
  assumes thr: "failureThreshold opts = 3"
    and sthr: "length ((t5, h) # rest) = successThreshold opts"
    and fresh: "failures (getState S0 key) = 0" "\<not> isOpen (getState S0 key)"
    and fails: "fail_in_turn [f1, f2, f3] w0"
    and run3: "CircuitBreaker_run opts key [(t1, f1), (t2, f2), (t3, f3)] S0 w0 = (outs3, S3, w3)"
    and clock: "t3 \<noteq> 0"
    and before: "t4 - t3 < timeoutMs opts"
    and after: "t5 - t3 > timeoutMs opts"
    and succeeds: "succeed_in_turn (map snd ((t5, h) # rest)) w3"
    and runs: "CircuitBreaker_run opts key ((t5, h) # rest) S3 w3 = (outs, S', w')"
  shows "map snd outs3 = [1, 1, 1] \<and> (\<forall>out \<in> set outs3. isl (fst out))
       \<and> isOpen (getState S3 key)
       \<and> getState S3 key = \<lparr>failures = 3, lastFailureTime = Some t3, isOpen = True, successCount = 0\<rparr>
       \<and> w3 = snd (f3 (snd (f2 (snd (f1 w0)))))
       \<and> (\<exists>r>0. CircuitBreaker_execute opts key t4 g S3 w3 =
             (Inl (ServiceUnavailableError (unavailableMessage key) (Some r) key (Some t3)), 0, S3, w3))
       \<and> fst (snd (CircuitBreaker_execute opts key t5 k S3 w3)) = 1
       \<and> fst (CircuitBreaker_execute opts key t5 k S3 w3) = fst (k w3)
       \<and> snd (snd (snd (CircuitBreaker_execute opts key t5 k S3 w3))) = snd (k w3)
       \<and> map snd outs = replicate (successThreshold opts) 1 \<and> (\<forall>out \<in> set outs. \<not> isl (fst out))
       \<and> getState S' key = closedState \<and> failures (getState S' key) = 0"
proof -
  define S1 where "S1 = onFailure opts key t1 S0"
  define S2 where "S2 = onFailure opts key t2 S1"
  define w1 where "w1 = snd (f1 w0)"
  define w2 where "w2 = snd (f2 w1)"
  have thrown: "isl (fst (f1 w0))" "isl (fst (f2 w1))" "isl (fst (f3 w2))"
    using fails by (simp_all add: w1_def w2_def)
  have e1: "CircuitBreaker_execute opts key t1 f1 S0 w0 = (fst (f1 w0), 1, S1, w1)"
    unfolding S1_def w1_def using fresh(2) thrown(1)
    by (intro execute_closed_failure) (simp_all add: w1_def)
  have st1: "getState S1 key = \<lparr>failures = 1, lastFailureTime = Some t1, isOpen = False, successCount = 0\<rparr>"
    unfolding S1_def using fresh(1) thr by (simp add: getState_onFailure)
  have e2: "CircuitBreaker_execute opts key t2 f2 S1 w1 = (fst (f2 w1), 1, S2, w2)"
    unfolding S2_def w2_def using st1 thrown(2)
    by (intro execute_closed_failure) (simp_all add: w2_def)
  have st2: "getState S2 key = \<lparr>failures = 2, lastFailureTime = Some t2, isOpen = False, successCount = 0\<rparr>"
    unfolding S2_def using st1 thr by (simp add: getState_onFailure)
  have e3: "CircuitBreaker_execute opts key t3 f3 S2 w2
              = (fst (f3 w2), 1, onFailure opts key t3 S2, snd (f3 w2))"
    using st2 thrown(3)
    by (intro execute_closed_failure) simp_all
  have outs3: "outs3 = [(fst (f1 w0), 1), (fst (f2 w1), 1), (fst (f3 w2), 1)]"
    and S3: "S3 = onFailure opts key t3 S2" and w3: "w3 = snd (f3 w2)"
    using run3 by (simp_all add: e1 e2 e3)
  have st3: "getState S3 key = \<lparr>failures = 3, lastFailureTime = Some t3, isOpen = True, successCount = 0\<rparr>"
    unfolding S3 using st2 thr by (simp add: getState_onFailure)
  have part1: "map snd outs3 = [1, 1, 1] \<and> (\<forall>out \<in> set outs3. isl (fst out))"
    using outs3 thrown by simp
  have world3: "w3 = snd (f3 (snd (f2 (snd (f1 w0)))))"
    by (simp add: w3 w2_def w1_def)
  have not_elapsed: "\<not> timeoutElapsed opts t4 (getState S3 key)"
    using st3 before by (simp add: timeoutElapsed_def)
  have pos: "0 < retryAfterSeconds opts t4 (getState S3 key)"
    using st3 before by (intro retryAfter_positive [where t = t3]) simp_all
  have "CircuitBreaker_execute opts key t4 g S3 w3 =
          (Inl (ServiceUnavailableError (unavailableMessage key)
                  (Some (retryAfterSeconds opts t4 (getState S3 key))) key (Some t3)), 0, S3, w3)"
    using st3 not_elapsed by (simp add: CircuitBreaker_execute_def admit_def Let_def)
  with pos have part2: "\<exists>r>0. CircuitBreaker_execute opts key t4 g S3 w3 =
             (Inl (ServiceUnavailableError (unavailableMessage key) (Some r) key (Some t3)), 0, S3, w3)"
    by blast
  have elapsed: "timeoutElapsed opts t5 (getState S3 key)"
    using st3 after clock by (simp add: timeoutElapsed_def)
  have open3: "isOpen (getState S3 key)" using st3 by simp
  have part3: "fst (snd (CircuitBreaker_execute opts key t5 k S3 w3)) = 1
       \<and> fst (CircuitBreaker_execute opts key t5 k S3 w3) = fst (k w3)
       \<and> snd (snd (snd (CircuitBreaker_execute opts key t5 k S3 w3))) = snd (k w3)"
    using execute_trial [OF open3 elapsed, of k w3] by simp
  define A where "A = setState S3 key ((getState S3 key)\<lparr>isOpen := False, successCount := 0\<rparr>)"
  have stA: "getState A key = \<lparr>failures = 3, lastFailureTime = Some t3, isOpen = False, successCount = 0\<rparr>"
    unfolding A_def using st3 by (simp add: getState_setState)
  have hsucc: "\<not> isl (fst (h w3))"
    using succeeds by simp
  have e5: "CircuitBreaker_execute opts key t5 h S3 w3 = (fst (h w3), 1, onSuccess opts key A, snd (h w3))"
    using execute_trial [OF open3 elapsed, of h w3] hsucc by (simp add: A_def)
  obtain outs' where run': "CircuitBreaker_run opts key rest (onSuccess opts key A) (snd (h w3)) = (outs', S', w')"
    and outs: "outs = (fst (h w3), 1) # outs'"
    using runs e5 by (auto split: prod.splits)
  have part4: "map snd outs = replicate (successThreshold opts) 1 \<and> (\<forall>out \<in> set outs. \<not> isl (fst out))
       \<and> getState S' key = closedState"
  proof (cases rest)
    case Nil
    then have "successThreshold opts = 1" using sthr by simp
    then have "getState (onSuccess opts key A) key = closedState"
      using stA by (simp add: getState_onSuccess)
    then show ?thesis
      using Nil run' outs hsucc \<open>successThreshold opts = 1\<close> by simp
  next
    case (Cons c rest')
    then have gt: "\<not> 1 \<ge> successThreshold opts" using sthr by simp
    have st5: "getState (onSuccess opts key A) key
        = \<lparr>failures = 3, lastFailureTime = Some t3, isOpen = False, successCount = 1\<rparr>"
      using gt stA by (simp add: getState_onSuccess)
    have "getState S' key = closedState \<and> map snd outs' = replicate (length rest) 1
         \<and> (\<forall>out \<in> set outs'. \<not> isl (fst out))"
    proof (rule run_successes [OF _ _ _ _ run'])
      show "\<not> isOpen (getState (onSuccess opts key A) key)" using st5 by simp
      show "succeed_in_turn (map snd rest) (snd (h w3))" using succeeds by simp
      show "successCount (getState (onSuccess opts key A) key) + length rest = successThreshold opts"
        using st5 sthr by simp
      show "rest \<noteq> []" using Cons by simp
    qed
    moreover have "replicate (successThreshold opts) (1::nat) = 1 # replicate (length rest) 1"
      using sthr by (simp flip: replicate_Suc)
    ultimately show ?thesis using outs hsucc by simp
  qed
  have part5: "failures (getState S' key) = 0"
    using part4 by (simp add: closedState_def)
  show ?thesis
    using part1 open3 st3 world3 part2 part3 part4 part5 by blast
qed

theorem circuit_opens_and_recovers_witness:
  "failureThreshold \<lparr>timeoutMs = 10000, failureThreshold = 3, successThreshold = 2\<rparr> = 3
   \<and> failures (getState Map.empty ''svc'') = 0 \<and> \<not> isOpen (getState Map.empty ''svc'')
   \<and> fail_in_turn
        [\<lambda>w::nat. (if w < 3 then Inl (JsError ''Error'' ''boom'') else Inr (7::nat), Suc w),
         \<lambda>w. (if w < 3 then Inl (JsError ''Error'' ''boom'') else Inr 7, Suc w),
         \<lambda>w. (if w < 3 then Inl (JsError ''Error'' ''boom'') else Inr 7, Suc w)] 0
   \<and> succeed_in_turn
        [\<lambda>w::nat. (if w < 3 then Inl (JsError ''Error'' ''boom'') else Inr (7::nat), Suc w),
         \<lambda>w. (if w < 3 then Inl (JsError ''Error'' ''boom'') else Inr 7, Suc w)] 3
   \<and> (3000::int) \<noteq> 0 \<and> (5000::int) - 3000 < 10000 \<and> (14000::int) - 3000 > 10000
   \<and> CircuitBreaker_run \<lparr>timeoutMs = 10000, failureThreshold = 3, successThreshold = 2\<rparr> ''svc''
        [(1000, \<lambda>w::nat. (if w < 3 then Inl (JsError ''Error'' ''boom'') else Inr (7::nat), Suc w)),
         (2000, \<lambda>w. (if w < 3 then Inl (JsError ''Error'' ''boom'') else Inr 7, Suc w)),
         (3000, \<lambda>w. (if w < 3 then Inl (JsError ''Error'' ''boom'') else Inr 7, Suc w))] Map.empty 0
       = ([(Inl (JsError ''Error'' ''boom''), 1), (Inl (JsError ''Error'' ''boom''), 1), (Inl (JsError ''Error'' ''boom''), 1)],
          [''svc'' \<mapsto> \<lparr>failures = 3, lastFailureTime = Some 3000, isOpen = True, successCount = 0\<rparr>], 3)
   \<and> CircuitBreaker_run \<lparr>timeoutMs = 10000, failureThreshold = 3, successThreshold = 2\<rparr> ''svc''
        [(14000, \<lambda>w::nat. (if w < 3 then Inl (JsError ''Error'' ''boom'') else Inr (7::nat), Suc w)),
         (15000, \<lambda>w. (if w < 3 then Inl (JsError ''Error'' ''boom'') else Inr 7, Suc w))]
        [''svc'' \<mapsto> \<lparr>failures = 3, lastFailureTime = Some 3000, isOpen = True, successCount = 0\<rparr>] 3
       = ([(Inr 7, 1), (Inr 7, 1)], [''svc'' \<mapsto> closedState], 5)
   \<and> (\<exists>r>0. CircuitBreaker_execute \<lparr>timeoutMs = 10000, failureThreshold = 3, successThreshold = 2\<rparr> ''svc'' 5000
          (\<lambda>w::nat. (if w < 3 then Inl (JsError ''Error'' ''boom'') else Inr (7::nat), Suc w))
          [''svc'' \<mapsto> \<lparr>failures = 3, lastFailureTime = Some 3000, isOpen = True, successCount = 0\<rparr>] 3
        = (Inl (ServiceUnavailableError (unavailableMessage ''svc'') (Some r) ''svc'' (Some 3000)), 0,
           [''svc'' \<mapsto> \<lparr>failures = 3, lastFailureTime = Some 3000, isOpen = True, successCount = 0\<rparr>], 3))
   \<and> getState [''svc'' \<mapsto> closedState] ''svc'' = closedState"
proof -
  let ?opts = "\<lparr>timeoutMs = 10000, failureThreshold = 3, successThreshold = 2\<rparr>"
  let ?f = "\<lambda>w::nat. (if w < 3 then Inl (JsError ''Error'' ''boom'') else Inr (7::nat), Suc w)"
  let ?S3 = "[''svc'' \<mapsto> \<lparr>failures = 3, lastFailureTime = Some 3000, isOpen = True, successCount = 0\<rparr>]"
  have h1: "failureThreshold ?opts = 3" by simp
  have h2: "length ((14000, ?f) # [(15000, ?f)]) = successThreshold ?opts" by simp
  have h3: "failures (getState Map.empty ''svc'') = 0" "\<not> isOpen (getState Map.empty ''svc'')"
    by (simp_all add: getState_def closedState_def)
  have h4: "fail_in_turn [?f, ?f, ?f] 0" by simp
  have h5: "CircuitBreaker_run ?opts ''svc'' [(1000, ?f), (2000, ?f), (3000, ?f)] Map.empty 0
       = ([(Inl (JsError ''Error'' ''boom''), 1), (Inl (JsError ''Error'' ''boom''), 1), (Inl (JsError ''Error'' ''boom''), 1)], ?S3, 3)"
    by (simp add: CircuitBreaker_execute_def admit_def onFailure_def getState_def setState_def closedState_def Let_def
          eval_nat_numeral)
  have h6: "(3000::int) \<noteq> 0" "(5000::int) - 3000 < timeoutMs ?opts" "(14000::int) - 3000 > timeoutMs ?opts"
    by simp_all
  have h7: "succeed_in_turn (map snd ((14000, ?f) # [(15000, ?f)])) 3" by simp
  have h8: "CircuitBreaker_run ?opts ''svc'' ((14000, ?f) # [(15000, ?f)]) ?S3 3
       = ([(Inr 7, 1), (Inr 7, 1)], [''svc'' \<mapsto> closedState], 5)"
    by (simp add: CircuitBreaker_execute_def admit_def onSuccess_def getState_def setState_def
          closedState_def timeoutElapsed_def Let_def)
  have h7': "succeed_in_turn [?f, ?f] 3" using h7 by simp
  show ?thesis
    using circuit_opens_and_recovers [OF h1 h2 h3 h4 h5 h6 h7 h8, of ?f ?f] h1 h3 h4 h5 h7' h8
    by (simp add: getState_def)
qed
section \<open>RateLimiter: properties\<close>

lemma isAllowed_allowed: "allowed (fst (isAllowed opts now key states))"
  by (simp add: isAllowed_def admission_def Let_def split: option.splits)

lemma isAllowed_remaining:
  "remaining (fst (isAllowed opts now key states)) =
     max 0 (maxRequests opts -
       (case states key of None \<Rightarrow> 0 | Some st \<Rightarrow> if now > resetTime st then 0 else count st))"
  by (simp add: isAllowed_def admission_def windowReset_def Let_def split: option.splits)

lemma isAllowed_stored:
  "snd (isAllowed opts now key states) k =
     (if k = key then map_option (windowReset opts now) (states key) else states k)"
  by (simp add: isAllowed_def Let_def split: option.splits)

lemma isAllowed_count:
  "map_option count (snd (isAllowed opts now key states) key) = map_option count (states key)
   \<or> map_option count (snd (isAllowed opts now key states) key) = Some 0"
  by (cases "states key") (simp_all add: isAllowed_stored windowReset_def)

lemma checks_Cons:
  "fst (RateLimiter_checks opts key (now # later) states) =
     fst (isAllowed opts now key states) # fst (RateLimiter_checks opts key later (snd (isAllowed opts now key states)))"
  "snd (RateLimiter_checks opts key (now # later) states) =
     snd (RateLimiter_checks opts key later (snd (isAllowed opts now key states)))"
  by (simp_all add: case_prod_beta)

lemma checks_allowed: "list_all allowed (fst (RateLimiter_checks opts key clock states))"
proof (induction clock arbitrary: states)
  case Nil
  then show ?case by simp
next
  case (Cons now later)
  show ?case
    using Cons.IH [of "snd (isAllowed opts now key states)"] isAllowed_allowed [of opts now key states]
    by (simp add: checks_Cons del: RateLimiter_checks.simps(2))
qed

lemma checks_count:
  "map_option count (snd (RateLimiter_checks opts key clock states) key) = map_option count (states key)
   \<or> map_option count (snd (RateLimiter_checks opts key clock states) key) = Some 0"
proof (induction clock arbitrary: states)
  case Nil
  then show ?case by simp
next
  case (Cons now later)
  define states' where "states' = snd (isAllowed opts now key states)"
  have step: "snd (RateLimiter_checks opts key (now # later) states) = snd (RateLimiter_checks opts key later states')"
    by (simp add: states'_def checks_Cons del: RateLimiter_checks.simps(2))
  show ?case
    using Cons.IH [of states'] isAllowed_count [of opts now key states]
    unfolding step states'_def by auto
qed

lemma execute_calls_fn:
  "fst (RateLimiter_execute opts key now nowCatch fn states w) = fst (fn w)
   \<and> fst (snd (RateLimiter_execute opts key now nowCatch fn states w)) = 1"
  using isAllowed_allowed [of opts now key states]
  by (cases "isAllowed opts now key states"; cases "fn w"; cases "fst (fn w)")
     (auto simp: RateLimiter_execute_def)

text \<open>
  C2. For every key, clock reading and state map (whatever calls came before), \<open>isAllowed\<close>
  reports \<open>allowed = true\<close> and \<open>remaining = max(0, maxRequests - count)\<close>, where \<open>count\<close> is
  the count of the key's current window: 0 when the key has no stored state or its window has
  passed, the stored count otherwise. The check never increments the counter: after one check,
  and after any sequence of checks, the stored count of the key is what it was or 0, and every
  check of the sequence reports allowed. Hence \<open>execute\<close> invokes \<open>fn\<close> exactly once and its
  outcome is that of \<open>fn\<close>: it never rejects a caller for being over the limit.
\<close>

theorem limiter_never_throttles:
  "allowed (fst (isAllowed opts now key states))
   \<and> remaining (fst (isAllowed opts now key states)) =
       max 0 (maxRequests opts -
         (case RateLimiter_getState states key of
            None \<Rightarrow> 0
          | Some st \<Rightarrow> if now > resetTime st then 0 else count st))
   \<and> (map_option count (RateLimiter_getState (snd (isAllowed opts now key states)) key)
         = map_option count (RateLimiter_getState states key)
       \<or> map_option count (RateLimiter_getState (snd (isAllowed opts now key states)) key) = Some 0)
   \<and> list_all allowed (fst (RateLimiter_checks opts key clock states))
   \<and> (map_option count (RateLimiter_getState (snd (RateLimiter_checks opts key clock states)) key)
         = map_option count (RateLimiter_getState states key)
       \<or> map_option count (RateLimiter_getState (snd (RateLimiter_checks opts key clock states)) key) = Some 0)
   \<and> fst (RateLimiter_execute opts key now nowCatch fn states w) = fst (fn w)
   \<and> fst (snd (RateLimiter_execute opts key now nowCatch fn states w)) = 1"
  unfolding RateLimiter_getState_def
  using isAllowed_allowed [of opts now key states] isAllowed_remaining [of opts now key states]
    isAllowed_count [of opts now key states] checks_allowed [of opts key clock states]
    checks_count [of opts key clock states] execute_calls_fn [of opts key now nowCatch fn states w]
  by blast

lemma checks_absent:
  "states key = None \<Longrightarrow> snd (RateLimiter_checks opts key clock states) = states"
proof (induction clock)
  case Nil
  then show ?case by simp
next
  case (Cons now later)
  then have "snd (isAllowed opts now key states) = states"
    by (simp add: isAllowed_def Let_def)
  with Cons show ?case by (simp add: checks_Cons del: RateLimiter_checks.simps(2))
qed

lemma isAllowed_within_window:
  "states key = Some st \<Longrightarrow> now \<le> resetTime st \<Longrightarrow> snd (isAllowed opts now key states) = states"
  by (auto simp: isAllowed_def windowReset_def Let_def)

lemma checks_within_window:
  "states key = Some st \<Longrightarrow> \<forall>now \<in> set clock. now \<le> resetTime st
     \<Longrightarrow> snd (RateLimiter_checks opts key clock states) = states"
proof (induction clock)
  case Nil
  then show ?case by simp
next
  case (Cons now later)
  then have "snd (isAllowed opts now key states) = states"
    by (simp add: isAllowed_within_window)
  with Cons show ?case by (simp add: checks_Cons del: RateLimiter_checks.simps(2))
qed

text \<open>
  C10, as amended. \<open>isAllowed\<close> never adds or removes a key of the state map and never touches
  the state of another key. For a key with no stored state, \<open>getState\<close> stays undefined after
  any number of checks. For a key with a stored state, any number of checks made no later than
  its \<open>resetTime\<close> leave the map as it was; a check made after its \<open>resetTime\<close> resets the
  stored state in place to \<open>count = 0\<close>, \<open>resetTime = now + timeWindow\<close>.
\<close>

theorem isAllowed_frame:
  "dom (snd (isAllowed opts now key states)) = dom states
   \<and> (\<forall>k. k \<noteq> key \<longrightarrow> RateLimiter_getState (snd (isAllowed opts now key states)) k = RateLimiter_getState states k)
   \<and> (RateLimiter_getState states key = None \<longrightarrow> snd (RateLimiter_checks opts key clock states) = states)
   \<and> (\<forall>st. RateLimiter_getState states key = Some st \<and> (\<forall>t \<in> set clock. t \<le> resetTime st)
         \<longrightarrow> snd (RateLimiter_checks opts key clock states) = states)
   \<and> (\<forall>st. RateLimiter_getState states key = Some st \<and> now > resetTime st
         \<longrightarrow> RateLimiter_getState (snd (isAllowed opts now key states)) key
               = Some \<lparr>count = 0, resetTime = now + timeWindow opts\<rparr>)"
proof -
  have "dom (snd (isAllowed opts now key states)) = dom states"
    by (auto simp: isAllowed_stored dom_def split: if_splits)
  moreover have "\<forall>k. k \<noteq> key \<longrightarrow> snd (isAllowed opts now key states) k = states k"
    by (simp add: isAllowed_stored)
  moreover have "\<forall>st. states key = Some st \<and> now > resetTime st
         \<longrightarrow> snd (isAllowed opts now key states) key = Some \<lparr>count = 0, resetTime = now + timeWindow opts\<rparr>"
    by (simp add: isAllowed_stored windowReset_def)
  ultimately show ?thesis
    unfolding RateLimiter_getState_def
    using checks_absent [of states key opts clock] checks_within_window [of states key _ clock opts]
    by blast
qed

theorem isAllowed_frame_witness:
  "dom (snd (isAllowed \<lparr>maxRequests = 100, timeWindow = 60000, throwOnLimit = True\<rparr> 2000 ''k''
          [''k'' \<mapsto> \<lparr>count = 100, resetTime = 1000\<rparr>])) = {''k''}
   \<and> RateLimiter_getState [''k'' \<mapsto> \<lparr>count = 100, resetTime = 1000\<rparr>] ''k'' = Some \<lparr>count = 100, resetTime = 1000\<rparr>
   \<and> RateLimiter_getState [''k'' \<mapsto> \<lparr>count = 100, resetTime = 1000\<rparr>] ''j'' = None
   \<and> (2000::int) > 1000
   \<and> RateLimiter_getState (snd (isAllowed \<lparr>maxRequests = 100, timeWindow = 60000, throwOnLimit = True\<rparr> 2000 ''k''
          [''k'' \<mapsto> \<lparr>count = 100, resetTime = 1000\<rparr>])) ''k'' = Some \<lparr>count = 0, resetTime = 62000\<rparr>
   \<and> snd (RateLimiter_checks \<lparr>maxRequests = 100, timeWindow = 60000, throwOnLimit = True\<rparr> ''j'' [500, 900]
          [''k'' \<mapsto> \<lparr>count = 100, resetTime = 1000\<rparr>]) = [''k'' \<mapsto> \<lparr>count = 100, resetTime = 1000\<rparr>]
   \<and> snd (RateLimiter_checks \<lparr>maxRequests = 100, timeWindow = 60000, throwOnLimit = True\<rparr> ''k'' [500, 900]
          [''k'' \<mapsto> \<lparr>count = 100, resetTime = 1000\<rparr>]) = [''k'' \<mapsto> \<lparr>count = 100, resetTime = 1000\<rparr>]"
  using isAllowed_frame [of "\<lparr>maxRequests = 100, timeWindow = 60000, throwOnLimit = True\<rparr>" 2000 "''k''"
      "[''k'' \<mapsto> \<lparr>count = 100, resetTime = 1000\<rparr>]" "[500, 900]"]
    isAllowed_frame [of "\<lparr>maxRequests = 100, timeWindow = 60000, throwOnLimit = True\<rparr>" 2000 "''j''"
      "[''k'' \<mapsto> \<lparr>count = 100, resetTime = 1000\<rparr>]" "[500, 900]"]
  by (simp add: RateLimiter_getState_def)

text \<open>
  The claim as stated fails. A call of \<open>execute\<close> whose function throws a rate-limit error with
  \<open>retryAfter = 1\<close> at time 0 stores \<open>{count 100, resetTime 1000}\<close>; a check at time 2000
  changes what \<open>getState\<close> returns to \<open>{count 0, resetTime 62000}\<close>; and a later check at time
  3000 then reports \<open>resetTime\<close> 62000, where without the earlier check it reports 63000.
\<close>

theorem isAllowed_frame_counterexample:
  "fst (snd (snd (RateLimiter_execute \<lparr>maxRequests = 100, timeWindow = 60000, throwOnLimit = True\<rparr> ''k'' 0 0
          (\<lambda>w::nat. (Inl (RateLimitError ''Too Many Requests'' (Some 1)) :: app_error + nat, Suc w)) Map.empty 0)))
     = [''k'' \<mapsto> \<lparr>count = 100, resetTime = 1000\<rparr>]
   \<and> RateLimiter_getState [''k'' \<mapsto> \<lparr>count = 100, resetTime = 1000\<rparr>] ''k'' = Some \<lparr>count = 100, resetTime = 1000\<rparr>
   \<and> RateLimiter_getState (snd (isAllowed \<lparr>maxRequests = 100, timeWindow = 60000, throwOnLimit = True\<rparr> 2000 ''k''
          [''k'' \<mapsto> \<lparr>count = 100, resetTime = 1000\<rparr>])) ''k'' = Some \<lparr>count = 0, resetTime = 62000\<rparr>
   \<and> RateLimiter_getState (snd (isAllowed \<lparr>maxRequests = 100, timeWindow = 60000, throwOnLimit = True\<rparr> 2000 ''k''
          [''k'' \<mapsto> \<lparr>count = 100, resetTime = 1000\<rparr>])) ''k''
       \<noteq> RateLimiter_getState [''k'' \<mapsto> \<lparr>count = 100, resetTime = 1000\<rparr>] ''k''
   \<and> resetAt (fst (isAllowed \<lparr>maxRequests = 100, timeWindow = 60000, throwOnLimit = True\<rparr> 3000 ''k''
          [''k'' \<mapsto> \<lparr>count = 100, resetTime = 1000\<rparr>])) = 63000
   \<and> resetAt (fst (isAllowed \<lparr>maxRequests = 100, timeWindow = 60000, throwOnLimit = True\<rparr> 3000 ''k''
          (snd (isAllowed \<lparr>maxRequests = 100, timeWindow = 60000, throwOnLimit = True\<rparr> 2000 ''k''
             [''k'' \<mapsto> \<lparr>count = 100, resetTime = 1000\<rparr>])))) = 62000"
  by (simp add: RateLimiter_execute_def isAllowed_def admission_def windowReset_def recordUpstreamLimit_def
        RateLimiter_getState_def Let_def)

section \<open>Double-precision arithmetic: properties\<close>

lemma roundHalfEven_of_int: "roundHalfEven (of_int n) = n"
  by (simp add: roundHalfEven_def)

lemma roundHalfEven_range: "\<lfloor>x\<rfloor> \<le> roundHalfEven x \<and> roundHalfEven x \<le> \<lfloor>x\<rfloor> + 1"
  by (simp add: roundHalfEven_def Let_def)

lemma roundHalfEven_mono:
  assumes "x \<le> y"
  shows "roundHalfEven x \<le> roundHalfEven y"
proof (cases "\<lfloor>x\<rfloor> = \<lfloor>y\<rfloor>")
  case True
  then have "x - of_int \<lfloor>x\<rfloor> \<le> y - of_int \<lfloor>y\<rfloor>"
    using assms by simp
  then show ?thesis
    using True by (auto simp: roundHalfEven_def Let_def)
next
  case False
  then have "\<lfloor>x\<rfloor> + 1 \<le> \<lfloor>y\<rfloor>"
    using floor_mono [OF assms] by linarith
  then show ?thesis
    using roundHalfEven_range [of x] roundHalfEven_range [of y] by linarith
qed

lemma exponent_bounds:
  "0 < x \<Longrightarrow> 2 powi exponent x \<le> x \<and> x < 2 powi (exponent x + 1)"
proof (induction x rule: exponent.induct)
  case (1 x)
  show ?case
  proof (cases "2 \<le> x")
    case True
    then have e: "exponent x = exponent (x / 2) + 1"
      using "1.prems" by (subst exponent.simps) simp
    have "2 powi exponent (x / 2) \<le> x / 2 \<and> x / 2 < 2 powi (exponent (x / 2) + 1)"
      using "1.IH"(1) "1.prems" True by simp
    then show ?thesis
      unfolding e by (simp add: power_int_add field_simps)
  next
    case False
    show ?thesis
    proof (cases "x < 1")
      case True
      then have e: "exponent x = exponent (x * 2) - 1"
        using "1.prems" False by (subst exponent.simps) simp
      have "2 powi exponent (x * 2) \<le> x * 2 \<and> x * 2 < 2 powi (exponent (x * 2) + 1)"
        using "1.IH"(2) "1.prems" False True by simp
      then show ?thesis
        unfolding e by (simp add: power_int_add power_int_diff field_simps)
    next
      case ge1: False
      then have "exponent x = 0"
        using "1.prems" False by (subst exponent.simps) simp
      then show ?thesis using False ge1 by simp
    qed
  qed
qed

lemma exponent_unique:
  assumes "2 powi k \<le> x" and "x < 2 powi (k + 1)"
  shows "exponent x = k"
proof -
  have pos: "0 < x"
    using assms(1) zero_less_power_int [of "2::real" k] by linarith
  have b: "2 powi exponent x \<le> x" "x < 2 powi (exponent x + 1)"
    using exponent_bounds [OF pos] by simp_all
  have "(2::real) powi k < 2 powi (exponent x + 1)" using assms(1) b(2) by linarith
  then have "k < exponent x + 1"
    by (metis power_int_increasing not_le one_le_numeral)
  moreover have "(2::real) powi exponent x < 2 powi (k + 1)" using assms(2) b(1) by linarith
  then have "exponent x < k + 1"
    by (metis power_int_increasing not_le one_le_numeral)
  ultimately show ?thesis by linarith
qed


lemma toDouble_binade:
  assumes "2 powi k \<le> x" and "x < 2 powi (k + 1)"
  shows "toDouble x = of_int (roundHalfEven (x * 2 powi (52 - k))) * 2 powi (k - 52)"
proof -
  have pos: "0 < x"
    using assms(1) zero_less_power_int [of "2::real" k] by linarith
  have "exponent \<bar>x\<bar> = k"
    using assms pos by (intro exponent_unique) simp_all
  then show ?thesis
    using pos by (simp add: toDouble_def Let_def)
qed

lemma toDouble_range:
  assumes "2 powi k \<le> x" and "x < 2 powi (k + 1)"
  shows "2 powi k \<le> toDouble x \<and> toDouble x \<le> 2 powi (k + 1)"
proof -
  have scale: "(0::real) < 2 powi (52 - k)" by simp
  have lo: "x * 2 powi (52 - k) \<ge> 2 powi k * 2 powi (52 - k)"
    using assms(1) scale by (intro mult_right_mono) simp_all
  have hi: "x * 2 powi (52 - k) \<le> 2 powi (k + 1) * 2 powi (52 - k)"
    using assms(2) scale by (intro mult_right_mono) simp_all
  have p52: "(2::real) powi k * 2 powi (52 - k) = of_int (2 ^ 52)"
    by (simp flip: power_int_add)
  have p53: "(2::real) powi (k + 1) * 2 powi (52 - k) = of_int (2 ^ 53)"
    by (simp flip: power_int_add)
  have "roundHalfEven (of_int (2 ^ 52)) \<le> roundHalfEven (x * 2 powi (52 - k))"
    using lo unfolding p52 by (rule roundHalfEven_mono)
  then have m_lo: "2 ^ 52 \<le> roundHalfEven (x * 2 powi (52 - k))"
    unfolding roundHalfEven_of_int .
  have "roundHalfEven (x * 2 powi (52 - k)) \<le> roundHalfEven (of_int (2 ^ 53))"
    using hi unfolding p53 by (rule roundHalfEven_mono)
  then have m_hi: "roundHalfEven (x * 2 powi (52 - k)) \<le> 2 ^ 53"
    unfolding roundHalfEven_of_int .
  have unscale: "(0::real) < 2 powi (k - 52)" by simp
  have "real_of_int (2 ^ 52) \<le> real_of_int (roundHalfEven (x * 2 powi (52 - k)))"
    using m_lo by (simp only: of_int_le_iff)
  then have below: "real_of_int (2 ^ 52) * 2 powi (k - 52)
      \<le> real_of_int (roundHalfEven (x * 2 powi (52 - k))) * 2 powi (k - 52)"
    using unscale by (intro mult_right_mono) simp_all
  have "real_of_int (roundHalfEven (x * 2 powi (52 - k))) \<le> real_of_int (2 ^ 53)"
    using m_hi by (simp only: of_int_le_iff)
  then have above: "real_of_int (roundHalfEven (x * 2 powi (52 - k))) * 2 powi (k - 52)
      \<le> real_of_int (2 ^ 53) * 2 powi (k - 52)"
    using unscale by (intro mult_right_mono) simp_all
  have e52: "real_of_int (2 ^ 52) * (2::real) powi (k - 52) = 2 powi k"
    using power_int_add [of "2::real" 52 "k - 52"] by simp
  have e53: "real_of_int (2 ^ 53) * (2::real) powi (k - 52) = 2 powi (k + 1)"
    using power_int_add [of "2::real" 53 "k - 52"] by (simp add: add.commute)
  show ?thesis
    unfolding toDouble_binade [OF assms] using below [unfolded e52] above [unfolded e53] by (rule conjI)
qed

lemma toDouble_mono_pos:
  assumes "0 < x" and "x \<le> y"
  shows "toDouble x \<le> toDouble y"
proof -
  have ypos: "0 < y" using assms by simp
  define kx where "kx = exponent x"
  define ky where "ky = exponent y"
  have bx: "2 powi kx \<le> x" "x < 2 powi (kx + 1)"
    using exponent_bounds [OF assms(1)] by (simp_all add: kx_def)
  have by': "2 powi ky \<le> y" "y < 2 powi (ky + 1)"
    using exponent_bounds [OF ypos] by (simp_all add: ky_def)
  have "(2::real) powi kx < 2 powi (ky + 1)" using bx(1) by'(2) assms(2) by linarith
  then have le: "kx \<le> ky"
    by (metis power_int_increasing not_le one_le_numeral zless_add1_eq order_le_less)
  show ?thesis
  proof (cases "kx = ky")
    case True
    have "x * 2 powi (52 - ky) \<le> y * 2 powi (52 - ky)"
      using assms(2) by (intro mult_right_mono) simp_all
    then have "roundHalfEven (x * 2 powi (52 - ky)) \<le> roundHalfEven (y * 2 powi (52 - ky))"
      by (rule roundHalfEven_mono)
    then have "of_int (roundHalfEven (x * 2 powi (52 - ky))) * 2 powi (ky - 52)
        \<le> of_int (roundHalfEven (y * 2 powi (52 - ky))) * (2::real) powi (ky - 52)"
      by (intro mult_right_mono) simp_all
    then show ?thesis
      using toDouble_binade [OF bx] toDouble_binade [OF by'] True by simp
  next
    case False
    then have "kx + 1 \<le> ky" using le by simp
    then have "(2::real) powi (kx + 1) \<le> 2 powi ky"
      by (intro power_int_increasing) simp_all
    then show ?thesis
      using toDouble_range [OF bx] toDouble_range [OF by'] by linarith
  qed
qed

lemma toDouble_zero: "toDouble 0 = 0"
  by (simp add: toDouble_def)

lemma toDouble_pos:
  assumes "0 < x"
  shows "0 < toDouble x"
proof -
  have b: "2 powi exponent x \<le> x" "x < 2 powi (exponent x + 1)"
    using exponent_bounds [OF assms] by simp_all
  have "(0::real) < 2 powi exponent x" by simp
  then show ?thesis
    using toDouble_range [OF b] by linarith
qed

lemma toDouble_mono:
  assumes "0 \<le> x" and "x \<le> y"
  shows "toDouble x \<le> toDouble y"
proof (cases "x = 0")
  case True
  show ?thesis
  proof (cases "y = 0")
    case True
    then show ?thesis using \<open>x = 0\<close> by simp
  next
    case False
    then have "0 < toDouble y" using assms True by (intro toDouble_pos) simp
    then show ?thesis using True by (simp add: toDouble_zero)
  qed
next
  case False
  then show ?thesis using assms by (intro toDouble_mono_pos) simp_all
qed

lemma toDouble_one: "toDouble 1 = 1"
  using toDouble_binade [of 0 1] by (simp add: roundHalfEven_def)

lemma toDouble_tenth: "toDouble (1 / 10) = 3602879701896397 / 36028797018963968"
  using toDouble_binade [of "- 4" "1 / 10"] by (simp add: roundHalfEven_def)

lemma toDouble_eleven_tenths: "toDouble (11 / 10) = 2476979795053773 / 2251799813685248"
  using toDouble_binade [of 0 "11 / 10"] by (simp add: roundHalfEven_def)

lemma toDouble_largest_jitter:
  "toDouble (1 + 3602879701896397 / 36028797018963968) = 2476979795053773 / 2251799813685248"
  using toDouble_binade [of 0 "1 + 3602879701896397 / 36028797018963968"] by (simp add: roundHalfEven_def)

lemma toDouble_powi: "toDouble (2 powi j) = 2 powi j"
proof -
  have p52: "(2::real) powi 52 = real_of_int (2 ^ 52)" by simp
  have scaled: "(2::real) powi j * 2 powi (52 - j) = real_of_int (2 ^ 52)"
    unfolding p52 [symmetric] by (simp flip: power_int_add)
  have "toDouble (2 powi j) = real_of_int (roundHalfEven ((2::real) powi j * 2 powi (52 - j))) * 2 powi (j - 52)"
    by (rule toDouble_binade) (simp_all add: power_int_add)
  also have "\<dots> = real_of_int (2 ^ 52) * 2 powi (j - 52)"
    by (simp only: scaled roundHalfEven_of_int)
  also have "\<dots> = 2 powi 52 * 2 powi (j - 52)"
    by (simp only: p52)
  also have "\<dots> = 2 powi (52 + (j - 52))"
    by (rule power_int_add [symmetric]) simp
  also have "52 + (j - 52) = j" by simp
  finally show ?thesis .
qed

lemma toDouble_idem:
  assumes "0 \<le> x"
  shows "toDouble (toDouble x) = toDouble x"
proof (cases "x = 0")
  case True
  then show ?thesis by (simp add: toDouble_zero)
next
  case False
  then have pos: "0 < x" using assms by simp
  define k where "k = exponent x"
  define m where "m = roundHalfEven (x * 2 powi (52 - k))"
  have b: "2 powi k \<le> x" "x < 2 powi (k + 1)"
    using exponent_bounds [OF pos] by (simp_all add: k_def)
  have val: "toDouble x = of_int m * 2 powi (k - 52)"
    using toDouble_binade [OF b] by (simp add: m_def)
  have range: "2 powi k \<le> toDouble x" "toDouble x \<le> 2 powi (k + 1)"
    using toDouble_range [OF b] by simp_all
  show ?thesis
  proof (cases "toDouble x < 2 powi (k + 1)")
    case True
    have unscale: "(2::real) powi (k - 52) * 2 powi (52 - k) = 1"
      by (simp flip: power_int_add)
    have "toDouble x * 2 powi (52 - k) = of_int m * (2 powi (k - 52) * 2 powi (52 - k))"
      by (simp add: val)
    then have scaled: "toDouble x * 2 powi (52 - k) = of_int m"
      by (simp only: unscale)
    have "toDouble (toDouble x) = of_int (roundHalfEven (toDouble x * 2 powi (52 - k))) * 2 powi (k - 52)"
      using range(1) True by (rule toDouble_binade)
    also have "\<dots> = of_int m * 2 powi (k - 52)"
      by (simp only: scaled roundHalfEven_of_int)
    finally show ?thesis by (simp add: val)
  next
    case False
    then have "toDouble x = 2 powi (k + 1)" using range(2) by simp
    then show ?thesis by (simp add: toDouble_powi)
  qed
qed

lemma toDouble_tenth_exact:
  "toDouble (3602879701896397 / 36028797018963968) = 3602879701896397 / 36028797018963968"
  using toDouble_idem [of "1 / 10"] by (simp add: toDouble_tenth)

section \<open>RetryPolicy: properties\<close>

lemma retryLoop_exhausted:
  "\<not> attempt < maxRetries \<Longrightarrow>
     retryLoop maxRetries baseDelayMs random operation attempt lastError invoked waits w =
       (Inl (InternalServerError (exhaustedMessage maxRetries lastError) lastError
               maxRetries baseDelayMs (map_option message lastError)), invoked, waits, w)"
  by (subst retryLoop.simps) simp

lemma retryLoop_success:
  "attempt < maxRetries \<Longrightarrow> operation w = (Inr result, w1) \<Longrightarrow>
     retryLoop maxRetries baseDelayMs random operation attempt lastError invoked waits w =
       (Inr result, invoked + 1, waits, w1)"
  by (subst retryLoop.simps) simp

lemma retryLoop_failure:
  "attempt < maxRetries \<Longrightarrow> operation w = (Inl error, w1) \<Longrightarrow>
     retryLoop maxRetries baseDelayMs random operation attempt lastError invoked waits w =
       retryLoop maxRetries baseDelayMs random operation (attempt + 1) (Some error) (invoked + 1)
         (if int attempt < int maxRetries - 1
          then waits @ [delayOf baseDelayMs attempt (jitterOf (random attempt))]
          else waits) w1"
  by (subst retryLoop.simps) (simp add: Let_def)

lemma retryLoop_failure_step:
  "attempt < maxRetries \<Longrightarrow> isl (fst (operation w)) \<Longrightarrow>
     retryLoop maxRetries baseDelayMs random operation attempt lastError invoked waits w =
       retryLoop maxRetries baseDelayMs random operation (attempt + 1) (Some (projl (fst (operation w))))
         (invoked + 1)
         (if int attempt < int maxRetries - 1
          then waits @ [delayOf baseDelayMs attempt (jitterOf (random attempt))]
          else waits) (snd (operation w))"
  by (cases "operation w"; cases "fst (operation w)") (simp_all add: retryLoop_failure)

lemma retryLoop_success_step:
  "attempt < maxRetries \<Longrightarrow> fst (operation w) = Inr result \<Longrightarrow>
     retryLoop maxRetries baseDelayMs random operation attempt lastError invoked waits w =
       (Inr result, invoked + 1, waits, snd (operation w))"
  by (cases "operation w") (simp add: retryLoop_success)

lemma worldAfter_Suc: "worldAfter operation (Suc n) w = snd (operation (worldAfter operation n w))"
  by (induction n arbitrary: w) simp_all

lemma fail_in_turn_replicate:
  "fail_in_turn (replicate n operation) w \<longleftrightarrow> (\<forall>i < n. isl (fst (operation (worldAfter operation i w))))"
proof (induction n arbitrary: w)
  case 0
  show ?case by simp
next
  case (Suc n)
  have "(\<forall>i < Suc n. isl (fst (operation (worldAfter operation i w))))
        \<longleftrightarrow> isl (fst (operation w)) \<and> (\<forall>i < n. isl (fst (operation (worldAfter operation (Suc i) w))))"
    by (auto simp: less_Suc_eq_0_disj)
  then show ?case using Suc.IH [of "snd (operation w)"] by simp
qed

text \<open>
  The loop, from any of its states: the invocations, the world, and the delays waited.
\<close>

lemma retryLoop_run:
  assumes "attempt \<le> maxRetries"
    and "length waits = min attempt (maxRetries - 1)"
    and "\<forall>i < length waits. waits ! i = delayOf baseDelayMs i (jitterOf (random i))"
    and "retryLoop maxRetries baseDelayMs random operation attempt lastError invoked waits w = (out, invoked', waits', w')"
  shows "invoked \<le> invoked' \<and> attempt + (invoked' - invoked) \<le> maxRetries
         \<and> w' = worldAfter operation (invoked' - invoked) w
         \<and> length waits' = attempt + (invoked' - invoked) - 1
         \<and> (\<forall>i < length waits'. waits' ! i = delayOf baseDelayMs i (jitterOf (random i)))"
  using assms
proof (induction maxRetries baseDelayMs random operation attempt lastError invoked waits w
         rule: retryLoop.induct)
  case (1 maxRetries baseDelayMs random operation attempt lastError invoked waits w)
  show ?case
  proof (cases "attempt < maxRetries")
    case False
    then have "attempt = maxRetries" using "1.prems"(1) by simp
    moreover have "invoked' = invoked" "waits' = waits" "w' = w"
      using "1.prems"(4) False by (auto simp: retryLoop_exhausted)
    ultimately show ?thesis using "1.prems" by simp
  next
    case True
    have len: "length waits = attempt"
      using "1.prems"(2) True by simp
    obtain r w1 where op: "operation w = (r, w1)" by (cases "operation w")
    show ?thesis
    proof (cases r)
      case (Inr result)
      then have "invoked' = invoked + 1" "waits' = waits" "w' = w1" "out = Inr result"
        using "1.prems"(4) True op by (simp_all add: retryLoop_success)
      then show ?thesis using "1.prems" True op len by simp
    next
      case (Inl error)
      define waits1 where "waits1 = (if int attempt < int maxRetries - 1
          then waits @ [delayOf baseDelayMs attempt (jitterOf (random attempt))] else waits)"
      have rec: "retryLoop maxRetries baseDelayMs random operation (attempt + 1) (Some error) (invoked + 1) waits1 w1
                  = (out, invoked', waits', w')"
        using "1.prems"(4) True op Inl unfolding waits1_def by (simp only: retryLoop_failure)
      have len1: "length waits1 = min (attempt + 1) (maxRetries - 1)"
        unfolding waits1_def using len True by auto
      have all1: "\<forall>i < length waits1. waits1 ! i = delayOf baseDelayMs i (jitterOf (random i))"
        unfolding waits1_def using "1.prems"(3) len by (auto simp: nth_append less_Suc_eq)
      have step: "invoked + 1 \<le> invoked' \<and> attempt + 1 + (invoked' - (invoked + 1)) \<le> maxRetries
         \<and> w' = worldAfter operation (invoked' - (invoked + 1)) w1
         \<and> length waits' = attempt + 1 + (invoked' - (invoked + 1)) - 1
         \<and> (\<forall>i < length waits'. waits' ! i = delayOf baseDelayMs i (jitterOf (random i)))"
      proof (rule "1.IH" [OF True op [symmetric] Inl refl refl refl _ _ _ rec [unfolded waits1_def]])
        show "attempt + 1 \<le> maxRetries" using True by simp
        show "length (if int attempt < int maxRetries - 1
            then waits @ [delayOf baseDelayMs attempt (jitterOf (random attempt))] else waits)
           = min (attempt + 1) (maxRetries - 1)"
          using len1 unfolding waits1_def .
        show "\<forall>i<length (if int attempt < int maxRetries - 1
            then waits @ [delayOf baseDelayMs attempt (jitterOf (random attempt))] else waits).
            (if int attempt < int maxRetries - 1
            then waits @ [delayOf baseDelayMs attempt (jitterOf (random attempt))] else waits) ! i
              = delayOf baseDelayMs i (jitterOf (random i))"
          using all1 unfolding waits1_def .
      qed
      define n where "n = invoked' - (invoked + 1)"
      have s1: "invoked + 1 \<le> invoked'"
        and s2: "attempt + 1 + n \<le> maxRetries"
        and s3: "w' = worldAfter operation n w1"
        and s4: "length waits' = attempt + 1 + n - 1"
        and s5: "\<forall>i < length waits'. waits' ! i = delayOf baseDelayMs i (jitterOf (random i))"
        using step unfolding n_def by blast+
      have more: "invoked' - invoked = Suc n"
        using s1 unfolding n_def by arith
      have "invoked \<le> invoked'" using s1 by simp
      moreover have "attempt + Suc n \<le> maxRetries" using s2 by simp
      moreover have "w' = worldAfter operation (Suc n) w" using s3 op by simp
      moreover have "length waits' = attempt + Suc n - 1" using s4 by simp
      ultimately show ?thesis
        unfolding more using s5 by blast
    qed
  qed
qed

text \<open>
  Enough failing attempts exhaust the loop, which then throws with the last error.
\<close>

lemma retryLoop_fails:
  assumes "attempt \<le> maxRetries"
    and "fail_in_turn (replicate (maxRetries - attempt) operation) w"
    and "retryLoop maxRetries baseDelayMs random operation attempt lastError invoked waits w = (out, invoked', waits', w')"
  shows "invoked' = invoked + (maxRetries - attempt)
       \<and> out = Inl (InternalServerError
                    (exhaustedMessage maxRetries
                       (if attempt = maxRetries then lastError
                        else Some (projl (fst (operation (worldAfter operation (maxRetries - attempt - 1) w))))))
                    (if attempt = maxRetries then lastError
                     else Some (projl (fst (operation (worldAfter operation (maxRetries - attempt - 1) w)))))
                    maxRetries baseDelayMs
                    (map_option message
                       (if attempt = maxRetries then lastError
                        else Some (projl (fst (operation (worldAfter operation (maxRetries - attempt - 1) w)))))))"
  using assms
proof (induction maxRetries baseDelayMs random operation attempt lastError invoked waits w
         rule: retryLoop.induct)
  case (1 maxRetries baseDelayMs random operation attempt lastError invoked waits w)
  show ?case
  proof (cases "attempt < maxRetries")
    case False
    then have "attempt = maxRetries" using "1.prems"(1) by simp
    then show ?thesis
      using "1.prems"(3) by (simp add: retryLoop_exhausted)
  next
    case True
    then have more: "maxRetries - attempt = Suc (maxRetries - (attempt + 1))" by simp
    have thrown: "isl (fst (operation w))"
      and later: "fail_in_turn (replicate (maxRetries - (attempt + 1)) operation) (snd (operation w))"
      using "1.prems"(2) unfolding more by simp_all
    obtain error w1 where op: "operation w = (Inl error, w1)"
      using thrown by (metis isl_def prod.collapse)
    define waits1 where "waits1 = (if int attempt < int maxRetries - 1
          then waits @ [delayOf baseDelayMs attempt (jitterOf (random attempt))] else waits)"
    have rec: "retryLoop maxRetries baseDelayMs random operation (attempt + 1) (Some error) (invoked + 1)
                 waits1 w1 = (out, invoked', waits', w')"
      using "1.prems"(3) True op unfolding waits1_def by (simp only: retryLoop_failure)
    define lastError1 where "lastError1 =
       (if attempt + 1 = maxRetries then Some error
        else Some (projl (fst (operation (worldAfter operation (maxRetries - (attempt + 1) - 1) w1)))))"
    have step: "invoked' = invoked + 1 + (maxRetries - (attempt + 1))
       \<and> out = Inl (InternalServerError (exhaustedMessage maxRetries lastError1) lastError1
                    maxRetries baseDelayMs (map_option message lastError1))"
      unfolding lastError1_def
    proof (rule "1.IH" [OF True op [symmetric] refl refl refl refl _ _ rec [unfolded waits1_def]])
      show "attempt + 1 \<le> maxRetries" using True by simp
      show "fail_in_turn (replicate (maxRetries - (attempt + 1)) operation) w1"
        using later op by simp
    qed
    have last: "lastError1 = Some (projl (fst (operation (worldAfter operation (maxRetries - attempt - 1) w))))"
    proof (cases "attempt + 1 = maxRetries")
      case True
      then have "maxRetries - attempt - 1 = 0" by simp
      then show ?thesis using True op by (simp add: lastError1_def)
    next
      case False
      then have "maxRetries - attempt - 1 = Suc (maxRetries - (attempt + 1) - 1)"
        using True by simp
      then show ?thesis using False op by (simp add: lastError1_def)
    qed
    show ?thesis
      using step True unfolding last by simp
  qed
qed

text \<open>
  A successful attempt ends the loop with its result.
\<close>

lemma retryLoop_succeeds:
  assumes "attempt + k < maxRetries"
    and "fail_in_turn (replicate k operation) w"
    and "fst (operation (worldAfter operation k w)) = Inr result"
  shows "fst (retryLoop maxRetries baseDelayMs random operation attempt lastError invoked waits w) = Inr result
       \<and> fst (snd (retryLoop maxRetries baseDelayMs random operation attempt lastError invoked waits w))
           = invoked + k + 1"
  using assms
proof (induction k arbitrary: attempt lastError invoked waits w)
  case 0
  then show ?case by (simp add: retryLoop_success_step)
next
  case (Suc k)
  have less: "attempt < maxRetries" using Suc.prems(1) by simp
  have thrown: "isl (fst (operation w))" using Suc.prems(2) by simp
  have "fst (retryLoop maxRetries baseDelayMs random operation (attempt + 1) (Some (projl (fst (operation w))))
              (invoked + 1)
              (if int attempt < int maxRetries - 1
               then waits @ [delayOf baseDelayMs attempt (jitterOf (random attempt))] else waits)
              (snd (operation w))) = Inr result
      \<and> fst (snd (retryLoop maxRetries baseDelayMs random operation (attempt + 1) (Some (projl (fst (operation w))))
              (invoked + 1)
              (if int attempt < int maxRetries - 1
               then waits @ [delayOf baseDelayMs attempt (jitterOf (random attempt))] else waits)
              (snd (operation w)))) = invoked + 1 + k + 1"
  proof (rule Suc.IH)
    show "attempt + 1 + k < maxRetries" using Suc.prems(1) by simp
    show "fail_in_turn (replicate k operation) (snd (operation w))" using Suc.prems(2) by simp
    show "fst (operation (worldAfter operation k (snd (operation w)))) = Inr result"
      using Suc.prems(3) by simp
  qed
  then show ?case
    using less thrown by (simp add: retryLoop_failure_step)
qed

text \<open>
  The draws \<^verbatim>\<open>Math.random() = 1/2\<close> and \<^verbatim>\<open>Math.random() = 1 - 2^-52\<close>, the largest value below 1
  that has 52 fractional bits. With the second, \<^verbatim>\<open>Math.random() * 0.1\<close> is the double just below
  \<^verbatim>\<open>0.1\<close>, and adding 1 falls half way between two doubles: the tie goes to the even one, which
  is the double \<^verbatim>\<open>1.1\<close>. The delay is then \<open>1100\<close> for \<open>baseDelayMs = 1000\<close>.
\<close>

lemma jitterOf_half: "jitterOf (1 / 2) = 4728779608739021 / 4503599627370496"
proof -
  have inner: "toDouble (1 / 2 * (3602879701896397 / 36028797018963968)) = 3602879701896397 / 72057594037927936"
    using toDouble_binade [of "- 5" "1 / 2 * (3602879701896397 / 36028797018963968)"]
    by (simp add: roundHalfEven_def)
  have outer: "toDouble (1 + 3602879701896397 / 72057594037927936) = 4728779608739021 / 4503599627370496"
    using toDouble_binade [of 0 "1 + 3602879701896397 / 72057594037927936"]
    by (simp add: roundHalfEven_def)
  show ?thesis
    by (simp only: jitterOf_def toDouble_tenth inner outer)
qed

lemma jitterOf_largest: "jitterOf (1 - 1 / 2 ^ 52) = 2476979795053773 / 2251799813685248"
proof -
  have inner: "toDouble ((1 - 1 / 2 ^ 52) * (3602879701896397 / 36028797018963968))
                 = 900719925474099 / 9007199254740992"
    using toDouble_binade [of "- 4" "(1 - 1 / 2 ^ 52) * (3602879701896397 / 36028797018963968)"]
    by (simp add: roundHalfEven_def)
  have outer: "toDouble (1 + 900719925474099 / 9007199254740992) = 2476979795053773 / 2251799813685248"
    using toDouble_binade [of 0 "1 + 900719925474099 / 9007199254740992"]
    by (simp add: roundHalfEven_def)
  show ?thesis
    by (simp only: jitterOf_def toDouble_tenth inner outer)
qed

lemma jitterOf_largest_value:
  "jitterOf (4503599627370495 / 4503599627370496) = 2476979795053773 / 2251799813685248"
  using jitterOf_largest by simp

lemma delayOf_half:
  "delayOf 1000 0 (4728779608739021 / 4503599627370496) = 1050"
  "delayOf 1000 (Suc 0) (4728779608739021 / 4503599627370496) = 2100"
proof -
  have b0: "toDouble 1000 = 1000"
    using toDouble_binade [of 9 1000] by (simp add: roundHalfEven_def)
  have b1: "toDouble 2000 = 2000"
    using toDouble_binade [of 10 2000] by (simp add: roundHalfEven_def)
  have d0: "toDouble (1000 * (4728779608739021 / 4503599627370496)) = 1050"
    using toDouble_binade [of 10 "1000 * (4728779608739021 / 4503599627370496)"]
    by (simp add: roundHalfEven_def)
  have d1: "toDouble (2000 * (4728779608739021 / 4503599627370496)) = 2100"
    using toDouble_binade [of 11 "2000 * (4728779608739021 / 4503599627370496)"]
    by (simp add: roundHalfEven_def)
  show "delayOf 1000 0 (4728779608739021 / 4503599627370496) = 1050"
    using b0 d0 by (simp add: delayOf_def)
  show "delayOf 1000 (Suc 0) (4728779608739021 / 4503599627370496) = 2100"
    using b1 d1 by (simp add: delayOf_def)
qed

lemma delayOf_largest:
  "delayOf 1000 0 (2476979795053773 / 2251799813685248) = 1100"
  "delayOf 1000 (Suc 0) (2476979795053773 / 2251799813685248) = 2200"
proof -
  have b0: "toDouble 1000 = 1000"
    using toDouble_binade [of 9 1000] by (simp add: roundHalfEven_def)
  have b1: "toDouble 2000 = 2000"
    using toDouble_binade [of 10 2000] by (simp add: roundHalfEven_def)
  have d0: "toDouble (1000 * (2476979795053773 / 2251799813685248)) = 1100"
    using toDouble_binade [of 10 "1000 * (2476979795053773 / 2251799813685248)"]
    by (simp add: roundHalfEven_def)
  have d1: "toDouble (2000 * (2476979795053773 / 2251799813685248)) = 2200"
    using toDouble_binade [of 11 "2000 * (2476979795053773 / 2251799813685248)"]
    by (simp add: roundHalfEven_def)
  show "delayOf 1000 0 (2476979795053773 / 2251799813685248) = 1100"
    using b0 d0 by (simp add: delayOf_def)
  show "delayOf 1000 (Suc 0) (2476979795053773 / 2251799813685248) = 2200"
    using b1 d1 by (simp add: delayOf_def)
qed

text \<open>
  The jitter lies between 1 and the double \<^verbatim>\<open>1.1\<close>, and the delay between the doubles
  \<^verbatim>\<open>baseDelayMs * Math.pow(2, attempt)\<close> and \<^verbatim>\<open>baseDelayMs * Math.pow(2, attempt) * 1.1\<close>:
  rounding is monotone.
\<close>

lemma jitterOf_bounds:
  assumes "0 \<le> r" and "r < 1"
  shows "1 \<le> jitterOf r \<and> jitterOf r \<le> toDouble (11 / 10)"
proof -
  define c :: real where "c = 3602879701896397 / 36028797018963968"
  have cpos: "0 < c" by (simp add: c_def)
  have prod: "0 \<le> r * c" "r * c \<le> c"
    using assms cpos by (simp_all add: mult_left_le_one_le)
  have "toDouble 0 \<le> toDouble (r * c)"
    using prod(1) by (intro toDouble_mono) simp_all
  then have low: "0 \<le> toDouble (r * c)" by (simp add: toDouble_zero)
  have "toDouble (r * c) \<le> toDouble c"
    using prod by (rule toDouble_mono)
  then have high: "toDouble (r * c) \<le> c"
    by (simp add: c_def toDouble_tenth_exact)
  have "toDouble 1 \<le> toDouble (1 + toDouble (r * c))"
    using low by (intro toDouble_mono) simp_all
  then have one: "1 \<le> toDouble (1 + toDouble (r * c))" by (simp add: toDouble_one)
  have "toDouble (1 + toDouble (r * c)) \<le> toDouble (1 + c)"
    using low high by (intro toDouble_mono) simp_all
  also have "toDouble (1 + c) = toDouble (11 / 10)"
    by (simp only: c_def toDouble_largest_jitter toDouble_eleven_tenths)
  finally have top: "toDouble (1 + toDouble (r * c)) \<le> toDouble (11 / 10)" .
  have j: "jitterOf r = toDouble (1 + toDouble (r * c))"
    by (simp only: jitterOf_def toDouble_tenth c_def)
  show ?thesis
    unfolding j using one top by (rule conjI)
qed

lemma delayOf_bounds:
  assumes "0 \<le> baseDelayMs" and "1 \<le> jitter" and "jitter \<le> toDouble (11 / 10)"
  shows "toDouble (real_of_int baseDelayMs * 2 ^ attempt) \<le> delayOf baseDelayMs attempt jitter
       \<and> delayOf baseDelayMs attempt jitter
           \<le> toDouble (toDouble (real_of_int baseDelayMs * 2 ^ attempt) * toDouble (11 / 10))"
proof -
  define b where "b = real_of_int baseDelayMs * 2 ^ attempt"
  have b0: "0 \<le> b" using assms(1) by (simp add: b_def)
  have "toDouble 0 \<le> toDouble b" using b0 by (intro toDouble_mono) simp_all
  then have d0: "0 \<le> toDouble b" by (simp add: toDouble_zero)
  have "toDouble b * 1 \<le> toDouble b * jitter"
    using d0 assms(2) by (rule mult_left_mono [rotated])
  then have "toDouble (toDouble b) \<le> toDouble (toDouble b * jitter)"
    using d0 by (intro toDouble_mono) simp_all
  then have low: "toDouble b \<le> toDouble (toDouble b * jitter)"
    using b0 by (simp add: toDouble_idem)
  have "toDouble b * jitter \<le> toDouble b * toDouble (11 / 10)"
    using d0 assms(3) by (rule mult_left_mono [rotated])
  moreover have "0 \<le> toDouble b * jitter" using d0 assms(2) by simp
  ultimately have high: "toDouble (toDouble b * jitter) \<le> toDouble (toDouble b * toDouble (11 / 10))"
    by (intro toDouble_mono)
  show ?thesis using low high by (simp add: delayOf_def b_def)
qed

text \<open>
  C5, as amended. With every value of \<^verbatim>\<open>Math.random()\<close> in \<open>[0, 1)\<close>, \<open>retryOperation\<close> invokes
  the operation at most \<open>maxRetries\<close> times, each invocation in the world the one before left.
  It waits once between two consecutive attempts and not after the last: the number of waits
  is the number of invocations minus one. Wait \<open>i\<close> (counted from 0, after the failed attempt
  \<open>i\<close>) is the double \<^verbatim>\<open>baseDelayMs * Math.pow(2, i) * jitter\<close> for the double
  \<^verbatim>\<open>jitter = 1 + Math.random() * 0.1\<close>, which lies between 1 and the double \<^verbatim>\<open>1.1\<close>, both
  included; for a \<open>baseDelayMs\<close> that is not negative the wait lies between the doubles
  \<^verbatim>\<open>baseDelayMs * Math.pow(2, i)\<close> and \<^verbatim>\<open>baseDelayMs * Math.pow(2, i) * 1.1\<close>, both included.
  If the operation throws at each of \<open>maxRetries\<close> attempts in turn, it is invoked exactly
  \<open>maxRetries\<close> times and the call throws the \<^verbatim>\<open>InternalServerError\<close> whose cause is the error of
  the last attempt and whose details are \<open>maxRetries\<close>, \<open>baseDelayMs\<close> and the message of that
  error; with \<open>maxRetries = 3\<close> that is 3 invocations and the error of the third. If the
  operation throws at \<open>k < maxRetries\<close> attempts in turn and then returns, the call returns that
  result after \<open>k + 1\<close> invocations.
\<close>

theorem retry_bounded_backoff:
  fixes operation :: "('a, 'w) operation"
  assumes "\<forall>i. 0 \<le> random i \<and> random i < 1"
    and "retryOperation operation maxRetries baseDelayMs random w = (out, invoked, waits, w')"
  shows "invoked \<le> maxRetries \<and> w' = worldAfter operation invoked w
       \<and> length waits = invoked - 1
       \<and> (\<forall>i < length waits.
             waits ! i = delayOf baseDelayMs i (jitterOf (random i))
             \<and> 1 \<le> jitterOf (random i) \<and> jitterOf (random i) \<le> toDouble (11 / 10)
             \<and> (0 \<le> baseDelayMs \<longrightarrow>
                  toDouble (real_of_int baseDelayMs * 2 ^ i) \<le> waits ! i
                  \<and> waits ! i \<le> toDouble (toDouble (real_of_int baseDelayMs * 2 ^ i) * toDouble (11 / 10))))
       \<and> (fail_in_turn (replicate maxRetries operation) w \<longrightarrow> invoked = maxRetries \<and> isl out)
       \<and> (0 < maxRetries \<and> fail_in_turn (replicate maxRetries operation) w \<longrightarrow>
            (\<exists>e. fst (operation (worldAfter operation (maxRetries - 1) w)) = Inl e
               \<and> out = Inl (InternalServerError (exhaustedMessage maxRetries (Some e)) (Some e)
                             maxRetries baseDelayMs (Some (message e)))))
       \<and> (maxRetries = 3 \<and> fail_in_turn [operation, operation, operation] w \<longrightarrow>
            invoked = 3
            \<and> (\<exists>e. fst (operation (snd (operation (snd (operation w))))) = Inl e
                 \<and> out = Inl (InternalServerError (exhaustedMessage 3 (Some e)) (Some e) 3 baseDelayMs
                               (Some (message e)))))
       \<and> (\<forall>k result. k < maxRetries \<and> fail_in_turn (replicate k operation) w
             \<and> fst (operation (worldAfter operation k w)) = Inr result \<longrightarrow>
             out = Inr result \<and> invoked = k + 1)"
proof -
  have run: "retryLoop maxRetries baseDelayMs random operation 0 None 0 [] w = (out, invoked, waits, w')"
    using assms(2) by (simp add: retryOperation_def)
  have loop: "0 \<le> invoked \<and> 0 + (invoked - 0) \<le> maxRetries
         \<and> w' = worldAfter operation (invoked - 0) w
         \<and> length waits = 0 + (invoked - 0) - 1
         \<and> (\<forall>i < length waits. waits ! i = delayOf baseDelayMs i (jitterOf (random i)))"
    by (rule retryLoop_run [OF _ _ _ run]) simp_all
  then have bound: "invoked \<le> maxRetries" and world: "w' = worldAfter operation invoked w"
    and len: "length waits = invoked - 1"
    and delays: "\<forall>i < length waits. waits ! i = delayOf baseDelayMs i (jitterOf (random i))"
    by simp_all
  have each: "waits ! i = delayOf baseDelayMs i (jitterOf (random i))
             \<and> 1 \<le> jitterOf (random i) \<and> jitterOf (random i) \<le> toDouble (11 / 10)
             \<and> (0 \<le> baseDelayMs \<longrightarrow>
                  toDouble (real_of_int baseDelayMs * 2 ^ i) \<le> waits ! i
                  \<and> waits ! i \<le> toDouble (toDouble (real_of_int baseDelayMs * 2 ^ i) * toDouble (11 / 10)))"
    if "i < length waits" for i
  proof -
    have d: "waits ! i = delayOf baseDelayMs i (jitterOf (random i))"
      using delays that by simp
    have "0 \<le> random i" "random i < 1" using assms(1) by simp_all
    then have j: "1 \<le> jitterOf (random i) \<and> jitterOf (random i) \<le> toDouble (11 / 10)"
      by (rule jitterOf_bounds)
    have "toDouble (real_of_int baseDelayMs * 2 ^ i) \<le> waits ! i
          \<and> waits ! i \<le> toDouble (toDouble (real_of_int baseDelayMs * 2 ^ i) * toDouble (11 / 10))"
      if "0 \<le> baseDelayMs"
      unfolding d using that j by (intro delayOf_bounds) simp_all
    then show ?thesis using d j by blast
  qed
  have exhausted: "invoked = maxRetries
       \<and> out = Inl (InternalServerError
                    (exhaustedMessage maxRetries
                       (if 0 = maxRetries then None
                        else Some (projl (fst (operation (worldAfter operation (maxRetries - 1) w))))))
                    (if 0 = maxRetries then None
                     else Some (projl (fst (operation (worldAfter operation (maxRetries - 1) w)))))
                    maxRetries baseDelayMs
                    (map_option message
                       (if 0 = maxRetries then None
                        else Some (projl (fst (operation (worldAfter operation (maxRetries - 1) w)))))))"
    if "fail_in_turn (replicate maxRetries operation) w"
    using retryLoop_fails [OF _ _ run] that by simp
  have thrown: "invoked = maxRetries \<and> isl out"
    if "fail_in_turn (replicate maxRetries operation) w"
  proof -
    from exhausted [OF that] obtain e where "invoked = maxRetries" "out = Inl e" by blast
    then show ?thesis by simp
  qed
  have last: "\<exists>e. fst (operation (worldAfter operation (maxRetries - 1) w)) = Inl e
               \<and> out = Inl (InternalServerError (exhaustedMessage maxRetries (Some e)) (Some e)
                             maxRetries baseDelayMs (Some (message e)))"
    if "0 < maxRetries" "fail_in_turn (replicate maxRetries operation) w"
  proof -
    have "isl (fst (operation (worldAfter operation (maxRetries - 1) w)))"
      using that by (simp add: fail_in_turn_replicate)
    then obtain e where e: "fst (operation (worldAfter operation (maxRetries - 1) w)) = Inl e"
      by (auto simp: isl_def)
    then show ?thesis using exhausted [OF that(2)] that(1) by simp
  qed
  have three: "invoked = 3
            \<and> (\<exists>e. fst (operation (snd (operation (snd (operation w))))) = Inl e
                 \<and> out = Inl (InternalServerError (exhaustedMessage 3 (Some e)) (Some e) 3 baseDelayMs
                               (Some (message e))))"
    if "maxRetries = 3" "fail_in_turn [operation, operation, operation] w"
  proof -
    have f: "fail_in_turn (replicate maxRetries operation) w"
      using that by (simp add: eval_nat_numeral)
    have "worldAfter operation (3 - 1) w = snd (operation (snd (operation w)))"
      by (simp add: eval_nat_numeral)
    then show ?thesis using exhausted [OF f] last [OF _ f] that(1) by simp
  qed
  have success: "out = Inr result \<and> invoked = k + 1"
    if "k < maxRetries" "fail_in_turn (replicate k operation) w"
       "fst (operation (worldAfter operation k w)) = Inr result" for k result
    using retryLoop_succeeds [of 0 k maxRetries operation w result baseDelayMs random None 0 "[]"] that run
    by simp
  have c4: "\<forall>i < length waits.
             waits ! i = delayOf baseDelayMs i (jitterOf (random i))
             \<and> 1 \<le> jitterOf (random i) \<and> jitterOf (random i) \<le> toDouble (11 / 10)
             \<and> (0 \<le> baseDelayMs \<longrightarrow>
                  toDouble (real_of_int baseDelayMs * 2 ^ i) \<le> waits ! i
                  \<and> waits ! i \<le> toDouble (toDouble (real_of_int baseDelayMs * 2 ^ i) * toDouble (11 / 10)))"
    using each by blast
  have c5: "fail_in_turn (replicate maxRetries operation) w \<longrightarrow> invoked = maxRetries \<and> isl out"
    using thrown by blast
  have c6: "0 < maxRetries \<and> fail_in_turn (replicate maxRetries operation) w \<longrightarrow>
            (\<exists>e. fst (operation (worldAfter operation (maxRetries - 1) w)) = Inl e
               \<and> out = Inl (InternalServerError (exhaustedMessage maxRetries (Some e)) (Some e)
                             maxRetries baseDelayMs (Some (message e))))"
    using last by blast
  have c7: "maxRetries = 3 \<and> fail_in_turn [operation, operation, operation] w \<longrightarrow>
            invoked = 3
            \<and> (\<exists>e. fst (operation (snd (operation (snd (operation w))))) = Inl e
                 \<and> out = Inl (InternalServerError (exhaustedMessage 3 (Some e)) (Some e) 3 baseDelayMs
                               (Some (message e))))"
    using three by blast
  have c8: "\<forall>k result. k < maxRetries \<and> fail_in_turn (replicate k operation) w
             \<and> fst (operation (worldAfter operation k w)) = Inr result \<longrightarrow>
             out = Inr result \<and> invoked = k + 1"
    using success by blast
  show ?thesis
    by (rule conjI bound world len c4 c5 c6 c7 c8)+
qed

theorem retry_bounded_backoff_witness:
  "(\<forall>i::nat. (0::real) \<le> 1 / 2 \<and> (1::real) / 2 < 1)
   \<and> fail_in_turn (replicate 3 (\<lambda>w::nat. (Inl (JsError ''Error'' ''boom'') :: app_error + nat, Suc w))) 0
   \<and> retryOperation (\<lambda>w::nat. (Inl (JsError ''Error'' ''boom'') :: app_error + nat, Suc w)) 3 1000 (\<lambda>i. 1 / 2) 0
       = (Inl (InternalServerError (exhaustedMessage 3 (Some (JsError ''Error'' ''boom'')))
                 (Some (JsError ''Error'' ''boom'')) 3 1000 (Some ''boom'')), 3, [1050, 2100], 3)
   \<and> (0::int) \<le> 1000 \<and> (0::nat) < 3
   \<and> (1::real) \<le> 4728779608739021 / 4503599627370496
   \<and> jitterOf (1 / 2) = 4728779608739021 / 4503599627370496
   \<and> jitterOf (1 / 2) \<le> toDouble (11 / 10)
   \<and> (2::nat) < 3
   \<and> fail_in_turn (replicate 2 (\<lambda>w::nat. (if w < 2 then Inl (JsError ''Error'' ''boom'') else Inr (7::nat), Suc w))) 0
   \<and> fst (if worldAfter (\<lambda>w::nat. (if w < 2 then Inl (JsError ''Error'' ''boom'') else Inr (7::nat), Suc w)) 2 0 < 2
           then Inl (JsError ''Error'' ''boom'') else Inr (7::nat),
           Suc (worldAfter (\<lambda>w::nat. (if w < 2 then Inl (JsError ''Error'' ''boom'') else Inr (7::nat), Suc w)) 2 0))
       = Inr 7
   \<and> retryOperation (\<lambda>w::nat. (if w < 2 then Inl (JsError ''Error'' ''boom'') else Inr (7::nat), Suc w))
        3 1000 (\<lambda>i. 1 / 2) 0
       = (Inr 7, 3, [1050, 2100], 3)"
proof -
  let ?op = "\<lambda>w::nat. (Inl (JsError ''Error'' ''boom'') :: app_error + nat, Suc w)"
  let ?flaky = "\<lambda>w::nat. (if w < 2 then Inl (JsError ''Error'' ''boom'') else Inr (7::nat), Suc w)"
  have h1: "\<forall>i::nat. (0::real) \<le> (\<lambda>i. 1 / 2) i \<and> (\<lambda>i. 1 / 2) i < (1::real)" by simp
  have h2: "retryOperation ?op 3 1000 (\<lambda>i. 1 / 2) 0
       = (Inl (InternalServerError (exhaustedMessage 3 (Some (JsError ''Error'' ''boom'')))
                 (Some (JsError ''Error'' ''boom'')) 3 1000 (Some ''boom'')), 3, [1050, 2100], 3)"
    unfolding retryOperation_def
    by (simp add: retryLoop_failure_step retryLoop_exhausted jitterOf_half delayOf_half)
  have h3: "fail_in_turn (replicate 3 ?op) 0" by (simp add: eval_nat_numeral)
  have h4: "fail_in_turn (replicate 2 ?flaky) 0" by (simp add: eval_nat_numeral)
  have h5: "fst (?flaky (worldAfter ?flaky 2 0)) = Inr 7" by (simp add: eval_nat_numeral)
  have h6: "retryOperation ?flaky 3 1000 (\<lambda>i. 1 / 2) 0 = (Inr 7, 3, [1050, 2100], 3)"
    unfolding retryOperation_def
    by (simp add: retryLoop_failure_step retryLoop_success_step jitterOf_half delayOf_half)
  note failing = retry_bounded_backoff [OF h1 h2]
  note waited = failing [THEN conjunct2, THEN conjunct2, THEN conjunct2, THEN conjunct1, rule_format, of 0]
  have j: "1 \<le> jitterOf (1 / 2) \<and> jitterOf (1 / 2) \<le> toDouble (11 / 10)"
    using waited by simp
  note returning = retry_bounded_backoff [OF h1 h6]
  note returned = returning [THEN conjunct2, THEN conjunct2, THEN conjunct2, THEN conjunct2,
      THEN conjunct2, THEN conjunct2, THEN conjunct2, rule_format, of 2 7]
  have r: "(3::nat) = 2 + 1"
    using returned h4 h5 by simp
  have k: "(2::nat) < 3" using r by simp
  have j1: "(1::real) \<le> 4728779608739021 / 4503599627370496"
    using j by (simp only: jitterOf_half)
  have j2: "jitterOf (1 / 2) \<le> toDouble (11 / 10)"
    using j by (rule conjunct2)
  have n: "(0::int) \<le> 1000" "(0::nat) < 3" by simp_all
  have rnd: "\<forall>i::nat. (0::real) \<le> 1 / 2 \<and> (1::real) / 2 < 1" by simp
  show ?thesis
    by (rule conjI rnd h3 h2 n j1 jitterOf_half j2 k h4 h5 h6)+
qed

text \<open>
  The claim as stated fails at the upper end of the jitter range: with
  \<^verbatim>\<open>Math.random() = 1 - 2^-52\<close> at every draw, an operation that always throws,
  \<open>maxRetries = 3\<close> and \<open>baseDelayMs = 1000\<close>, the jitter is the double \<^verbatim>\<open>1.1\<close>, which is not below
  \<open>11/10\<close>, and the two delays are exactly \<open>1100\<close> and \<open>2200\<close>: neither is
  \<open>baseDelayMs * 2^i * jitter\<close> for a jitter in \<open>[1.0, 1.1)\<close>.
\<close>

theorem retry_jitter_counterexample:
  "(0::real) \<le> 1 - 1 / 2 ^ 52 \<and> (1::real) - 1 / 2 ^ 52 < 1
   \<and> retryOperation (\<lambda>w::nat. (Inl (JsError ''Error'' ''boom'') :: app_error + nat, Suc w)) 3 1000
        (\<lambda>i. 1 - 1 / 2 ^ 52) 0
       = (Inl (InternalServerError (exhaustedMessage 3 (Some (JsError ''Error'' ''boom'')))
                 (Some (JsError ''Error'' ''boom'')) 3 1000 (Some ''boom'')), 3, [1100, 2200], 3)
   \<and> jitterOf (1 - 1 / 2 ^ 52) = 2476979795053773 / 2251799813685248
   \<and> \<not> jitterOf (1 - 1 / 2 ^ 52) < 11 / 10
   \<and> \<not> backoffDelay 1000 0 1100 \<and> \<not> backoffDelay 1000 1 2200"
proof -
  let ?op = "\<lambda>w::nat. (Inl (JsError ''Error'' ''boom'') :: app_error + nat, Suc w)"
  have run: "retryOperation ?op 3 1000 (\<lambda>i. 1 - 1 / 2 ^ 52) 0
       = (Inl (InternalServerError (exhaustedMessage 3 (Some (JsError ''Error'' ''boom'')))
                 (Some (JsError ''Error'' ''boom'')) 3 1000 (Some ''boom'')), 3, [1100, 2200], 3)"
    unfolding retryOperation_def
    by (simp add: retryLoop_failure_step retryLoop_exhausted jitterOf_largest_value delayOf_largest)
  have j: "\<not> jitterOf (1 - 1 / 2 ^ 52) < 11 / 10"
    by (simp add: jitterOf_largest_value)
  have d: "\<not> backoffDelay 1000 0 1100" "\<not> backoffDelay 1000 1 2200"
    by (auto simp: backoffDelay_def)
  show ?thesis
    using run j d by (simp add: jitterOf_largest_value)
qed

section \<open>Cache: properties\<close>

lemma get_after_set:
  assumes "now' - now < t"
  shows "fst (Cache_get opts now' key (Cache_set opts now key v (Some t) store)) = Some v"
  using assms by (simp add: Cache_get_def Cache_set_def update_conv')

lemma get_after_expiry:
  assumes "\<not> staleWhileRevalidate opts" and "t \<le> now' - now"
  shows "Cache_get opts now' key (Cache_set opts now key v (Some t) store)
           = (None, AList.delete key store)"
  using assms by (simp add: Cache_get_def Cache_set_def update_conv' delete_update_same)

text \<open>
  C7. For every key, value and \<open>ttl t > 0\<close>: after \<open>set(k, v, t)\<close>, a \<open>get(k)\<close> at the same
  clock reading, or at any reading less than \<open>t\<close> later, returns \<open>v\<close>. With
  \<open>staleWhileRevalidate\<close> disabled, a \<open>get(k)\<close> at a reading \<open>t\<close> or more later (so in particular
  past \<open>t\<close>) returns \<^verbatim>\<open>undefined\<close> and leaves no entry for the key.
\<close>

theorem cache_ttl:
  assumes "0 < t"
  shows "fst (Cache_get opts now key (Cache_set opts now key v (Some t) store)) = Some v
       \<and> (\<forall>now'. now' - now < t \<longrightarrow>
             fst (Cache_get opts now' key (Cache_set opts now key v (Some t) store)) = Some v)
       \<and> (\<forall>now'. \<not> staleWhileRevalidate opts \<and> t \<le> now' - now \<longrightarrow>
             fst (Cache_get opts now' key (Cache_set opts now key v (Some t) store)) = None
             \<and> map_of (snd (Cache_get opts now' key (Cache_set opts now key v (Some t) store))) key = None)"
proof -
  have "fst (Cache_get opts now key (Cache_set opts now key v (Some t) store)) = Some v"
    using assms by (intro get_after_set) simp
  moreover have "map_of (AList.delete key store) key = None"
    by (simp add: delete_conv')
  ultimately show ?thesis
    by (simp add: get_after_set get_after_expiry)
qed

theorem cache_ttl_witness:
  "(0::int) < 5000
   \<and> fst (Cache_get \<lparr>ttl = 300000, maxSize = 100, staleWhileRevalidate = False, onEvict = False\<rparr> 1000 ''k''
        (Cache_set \<lparr>ttl = 300000, maxSize = 100, staleWhileRevalidate = False, onEvict = False\<rparr> 1000 ''k'' ''v'' (Some 5000) []))
       = Some ''v''
   \<and> (6001::int) - 1000 > 5000
   \<and> Cache_get \<lparr>ttl = 300000, maxSize = 100, staleWhileRevalidate = False, onEvict = False\<rparr> 6001 ''k''
        (Cache_set \<lparr>ttl = 300000, maxSize = 100, staleWhileRevalidate = False, onEvict = False\<rparr> 1000 ''k'' ''v'' (Some 5000) [])
       = (None, [])"
proof -
  let ?opts = "\<lparr>ttl = 300000, maxSize = 100, staleWhileRevalidate = False, onEvict = False\<rparr>"
  have h: "(0::int) < 5000" by simp
  have "snd (Cache_get ?opts 6001 ''k'' (Cache_set ?opts 1000 ''k'' ''v'' (Some 5000) [])) = []"
    by (simp add: Cache_get_def Cache_set_def)
  then show ?thesis
    using cache_ttl [OF h, of ?opts 1000 "''k''" "''v''" "[]"]
    by (simp add: prod_eq_iff)
qed

lemma compareAndSet_result:
  "fst (compareAndSet opts stringify nowGet nowSet key v store) =
     (case fst (Cache_get opts nowGet key store) of
        None \<Rightarrow> Initial
      | Some previous \<Rightarrow> if stringify previous = stringify v then Unchanged else Changed)"
  by (simp add: compareAndSet_def Let_def split: prod.splits option.splits)

lemma compareAndSet_store:
  "snd (compareAndSet opts stringify nowGet nowSet key v store) =
     Cache_set opts nowSet key v None (snd (Cache_get opts nowGet key store))"
  by (simp add: compareAndSet_def Let_def split: prod.splits option.splits)

lemma get_after_default_set:
  assumes "now' - now < ttl opts"
  shows "fst (Cache_get opts now' key (Cache_set opts now key v None store)) = Some v"
  using assms by (simp add: Cache_get_def Cache_set_def update_conv')

lemma get_absent: "map_of store key = None \<Longrightarrow> Cache_get opts now key store = (None, store)"
  by (simp add: Cache_get_def)

text \<open>
  C8. \<open>compareAndSet(key, newValue)\<close> always leaves \<open>newValue\<close> cached under the key, with the
  default TTL. What it returns is decided by what \<open>get(key)\<close> returns at the start of the call:
  \<open>initial\<close> when that is \<^verbatim>\<open>undefined\<close>, \<open>unchanged\<close> when its serialization equals that of
  \<open>newValue\<close>, \<open>changed\<close> otherwise. So a call for a key with no entry returns \<open>initial\<close>, and
  so does a call for a key whose entry has expired and is dropped by the \<open>get\<close>; an entry that
  has not expired, or that is served stale, is compared. In particular a repeat with the same value, made before the entry written by the first call
  expires, returns \<open>unchanged\<close>; and a call with a value whose serialization differs returns
  \<open>changed\<close>.
\<close>

theorem compareAndSet_semantics:
  "map_of (snd (compareAndSet opts stringify nowGet nowSet key v store)) key
       = Some \<lparr>cvalue = v, expiresAt = nowSet + ttl opts, lastAccess = nowSet, isFetching = False\<rparr>
   \<and> fst (compareAndSet opts stringify nowGet nowSet key v store) =
       (case fst (Cache_get opts nowGet key store) of
          None \<Rightarrow> Initial
        | Some previous \<Rightarrow> if stringify previous = stringify v then Unchanged else Changed)
   \<and> (map_of store key = None \<longrightarrow> fst (compareAndSet opts stringify nowGet nowSet key v store) = Initial)
   \<and> (\<forall>item. map_of store key = Some item
          \<and> expiresAt item \<le> nowGet \<and> (\<not> staleWhileRevalidate opts \<or> isFetching item) \<longrightarrow>
        fst (compareAndSet opts stringify nowGet nowSet key v store) = Initial)
   \<and> (\<forall>item. map_of store key = Some item
          \<and> (nowGet < expiresAt item \<or> staleWhileRevalidate opts \<and> \<not> isFetching item) \<longrightarrow>
        fst (compareAndSet opts stringify nowGet nowSet key v store)
          = (if stringify (cvalue item) = stringify v then Unchanged else Changed))
   \<and> (nowGet' - nowSet < ttl opts \<longrightarrow>
        fst (compareAndSet opts stringify nowGet' nowSet' key v
               (snd (compareAndSet opts stringify nowGet nowSet key v store))) = Unchanged)
   \<and> (nowGet' - nowSet < ttl opts \<and> stringify v' \<noteq> stringify v \<longrightarrow>
        fst (compareAndSet opts stringify nowGet' nowSet' key v'
               (snd (compareAndSet opts stringify nowGet nowSet key v store))) = Changed)"
proof -
  have written: "map_of (snd (compareAndSet opts stringify nowGet nowSet key v store)) key
       = Some \<lparr>cvalue = v, expiresAt = nowSet + ttl opts, lastAccess = nowSet, isFetching = False\<rparr>"
    by (simp add: compareAndSet_store Cache_set_def update_conv')
  have initial: "fst (compareAndSet opts stringify nowGet nowSet key v store) = Initial"
    if "map_of store key = None"
    using that by (simp add: compareAndSet_result get_absent)
  have dropped: "\<forall>item. map_of store key = Some item
          \<and> expiresAt item \<le> nowGet \<and> (\<not> staleWhileRevalidate opts \<or> isFetching item) \<longrightarrow>
        fst (compareAndSet opts stringify nowGet nowSet key v store) = Initial"
    by (auto simp: compareAndSet_result Cache_get_def)
  have kept: "\<forall>item. map_of store key = Some item
          \<and> (nowGet < expiresAt item \<or> staleWhileRevalidate opts \<and> \<not> isFetching item) \<longrightarrow>
        fst (compareAndSet opts stringify nowGet nowSet key v store)
          = (if stringify (cvalue item) = stringify v then Unchanged else Changed)"
    by (auto simp: compareAndSet_result Cache_get_def)
  have previous: "fst (Cache_get opts nowGet' key (snd (compareAndSet opts stringify nowGet nowSet key v store))) = Some v"
    if "nowGet' - nowSet < ttl opts"
    using that by (simp add: compareAndSet_store get_after_default_set)
  have unchanged: "fst (compareAndSet opts stringify nowGet' nowSet' key v
               (snd (compareAndSet opts stringify nowGet nowSet key v store))) = Unchanged"
    if "nowGet' - nowSet < ttl opts"
    using previous [OF that] by (simp add: compareAndSet_result)
  have changed: "fst (compareAndSet opts stringify nowGet' nowSet' key v'
               (snd (compareAndSet opts stringify nowGet nowSet key v store))) = Changed"
    if "nowGet' - nowSet < ttl opts" "stringify v' \<noteq> stringify v"
    using previous [OF that(1)] that(2) by (simp add: compareAndSet_result [where v = v'])
  show ?thesis
    using written compareAndSet_result [of opts stringify nowGet nowSet key v store] initial dropped kept
      unchanged changed
    by blast
qed

theorem compareAndSet_semantics_witness:
  "map_of ([] :: string store) ''form:1'' = None
   \<and> compareAndSet \<lparr>ttl = 300000, maxSize = 100, staleWhileRevalidate = False, onEvict = False\<rparr> id 1000 1000 ''form:1'' ''hash-a'' []
       = (Initial, [(''form:1'', \<lparr>cvalue = ''hash-a'', expiresAt = 301000, lastAccess = 1000, isFetching = False\<rparr>)])
   \<and> (2000::int) - 1000 < 300000 \<and> id ''hash-b'' \<noteq> id ''hash-a''
   \<and> fst (compareAndSet \<lparr>ttl = 300000, maxSize = 100, staleWhileRevalidate = False, onEvict = False\<rparr> id 2000 2000 ''form:1'' ''hash-a''
        (snd (compareAndSet \<lparr>ttl = 300000, maxSize = 100, staleWhileRevalidate = False, onEvict = False\<rparr> id 1000 1000 ''form:1'' ''hash-a'' [])))
       = Unchanged
   \<and> fst (compareAndSet \<lparr>ttl = 300000, maxSize = 100, staleWhileRevalidate = False, onEvict = False\<rparr> id 2000 2000 ''form:1'' ''hash-b''
        (snd (compareAndSet \<lparr>ttl = 300000, maxSize = 100, staleWhileRevalidate = False, onEvict = False\<rparr> id 1000 1000 ''form:1'' ''hash-a'' [])))
       = Changed"
proof -
  let ?opts = "\<lparr>ttl = 300000, maxSize = 100, staleWhileRevalidate = False, onEvict = False\<rparr>"
  have store: "snd (compareAndSet ?opts id 1000 1000 ''form:1'' ''hash-a'' [])
      = [(''form:1'', \<lparr>cvalue = ''hash-a'', expiresAt = 301000, lastAccess = 1000, isFetching = False\<rparr>)]"
    by (simp add: compareAndSet_def Cache_get_def Cache_set_def)
  show ?thesis
    using compareAndSet_semantics [of ?opts id 1000 1000 "''form:1''" "''hash-a''" "[]" 2000 2000 "''hash-b''"] store
    by (simp add: prod_eq_iff Cache_get_def)
qed

lemma delete_filter: "AList.delete key store = filter (\<lambda>p. fst p \<noteq> key) store"
  by (induction store) (auto simp: AList.delete_eq)

lemma evictExpired_eq:
  "evictExpired opts now entries (store, evicted) =
     (filter (\<lambda>p. fst p \<notin> fst ` {e \<in> set entries. expired now e}) store,
      if onEvict opts then evicted @ map notified (filter (expired now) entries) else evicted)"
proof (induction entries arbitrary: store evicted)
  case Nil
  then show ?case by simp
next
  case (Cons entry entries)
  obtain key item where entry: "entry = (key, item)" by (cases entry)
  show ?case
  proof (cases "expiresAt item \<le> now")
    case True
    have keys: "fst ` {e \<in> set (entry # entries). expired now e}
                 = insert key (fst ` {e \<in> set entries. expired now e})"
      using True entry by (force simp: expired_def)
    have step: "evictExpired opts now (entry # entries) (store, evicted) = evictExpired opts now entries
        (filter (\<lambda>p. fst p \<noteq> key) store, if onEvict opts then evicted @ [(key, cvalue item)] else evicted)"
      using True entry by (simp add: evict_def delete_filter)
    have flt: "filter (expired now) (entry # entries) = entry # filter (expired now) entries"
      using True entry by (simp add: expired_def)
    have stores: "filter (\<lambda>p. fst p \<notin> fst ` {e \<in> set entries. expired now e}) (filter (\<lambda>p. fst p \<noteq> key) store)
        = filter (\<lambda>p. fst p \<notin> insert key (fst ` {e \<in> set entries. expired now e})) store"
      unfolding filter_filter by (rule filter_cong [OF refl]) blast
    have note1: "notified entry = (key, cvalue item)"
      using entry by (simp add: notified_def)
    show ?thesis
      unfolding step Cons.IH keys flt stores by (simp add: note1)
  next
    case False
    have keys: "{e \<in> set (entry # entries). expired now e} = {e \<in> set entries. expired now e}"
      using False entry by (auto simp: expired_def)
    have step: "evictExpired opts now (entry # entries) (store, evicted) = evictExpired opts now entries (store, evicted)"
      using False entry by simp
    have flt: "filter (expired now) (entry # entries) = filter (expired now) entries"
      using False entry by (simp add: expired_def)
    show ?thesis
      unfolding step Cons.IH keys flt by (rule refl)
  qed
qed


lemma same_key_same_entry:
  assumes "distinct (map fst store)" and "p \<in> set store" and "e \<in> set store" and "fst p = fst e"
  shows "p = e"
  using assms by (metis distinct_map inj_onD)

lemma filter_expired_keys:
  assumes "distinct (map fst store)"
  shows "filter (\<lambda>p. fst p \<notin> fst ` {e \<in> set store. expired now e}) store
           = filter (\<lambda>p. \<not> expired now p) store"
proof (rule filter_cong [OF refl])
  fix p assume p: "p \<in> set store"
  show "(fst p \<notin> fst ` {e \<in> set store. expired now e}) = (\<not> expired now p)"
  proof
    assume "fst p \<notin> fst ` {e \<in> set store. expired now e}"
    then show "\<not> expired now p" using p by blast
  next
    assume live: "\<not> expired now p"
    show "fst p \<notin> fst ` {e \<in> set store. expired now e}"
    proof
      assume "fst p \<in> fst ` {e \<in> set store. expired now e}"
      then obtain e where e: "e \<in> set store" "expired now e" "fst p = fst e" by blast
      then have "p = e" using same_key_same_entry [OF assms p e(1) e(3)] by simp
      then show False using live e(2) by simp
    qed
  qed
qed

lemma length_filter_remove:
  assumes "distinct xs" and "x \<in> set xs"
  shows "length (filter (\<lambda>p. p \<noteq> x) xs) = length xs - 1"
proof -
  have "filter (\<lambda>p. p \<noteq> x) xs = removeAll x xs"
    by (induction xs) auto
  also have "\<dots> = remove1 x xs"
    using assms(1) by (simp add: distinct_remove1_removeAll)
  finally show ?thesis
    using assms(2) by (simp add: length_remove1)
qed

lemma evictOldest_eq:
  assumes "distinct (map fst store)" and "distinct (map fst entries)" and "set entries \<subseteq> set store"
  shows "evictOldest opts entries (store, evicted) =
     (filter (\<lambda>p. p \<notin> set (take (length store - maxSize opts) entries)) store,
      if onEvict opts then evicted @ map notified (take (length store - maxSize opts) entries) else evicted)"
  using assms
proof (induction entries arbitrary: store evicted)
  case Nil
  then show ?case by simp
next
  case (Cons entry entries)
  obtain key item where entry: "entry = (key, item)" by (cases entry)
  show ?case
  proof (cases "length store > maxSize opts")
    case False
    then have "evictOldest opts (entry # entries) (store, evicted) = (store, evicted)"
      using entry by simp
    moreover have "length store - maxSize opts = 0" using False by simp
    ultimately show ?thesis by simp
  next
    case True
    define store1 where "store1 = AList.delete key store"
    have mem: "entry \<in> set store" using Cons.prems(3) by simp
    have store1: "store1 = filter (\<lambda>p. p \<noteq> entry) store"
      unfolding store1_def delete_filter
    proof (rule filter_cong [OF refl])
      fix p assume p: "p \<in> set store"
      show "(fst p \<noteq> key) = (p \<noteq> entry)"
        using same_key_same_entry [OF Cons.prems(1) p mem] entry by auto
    qed
    have d1: "distinct (map fst store1)"
      unfolding store1_def using Cons.prems(1) by (rule distinct_delete)
    have dstore: "distinct store"
      using Cons.prems(1) by (simp add: distinct_map)
    have len1: "length store1 = length store - 1"
      unfolding store1 using dstore mem by (rule length_filter_remove)
    have "entry \<notin> set entries"
      using Cons.prems(2) by (auto simp: distinct_map)
    then have sub1: "set entries \<subseteq> set store1"
      using Cons.prems(3) unfolding store1 by auto
    have d2: "distinct (map fst entries)" using Cons.prems(2) by simp
    have m: "length store - maxSize opts = Suc (length store1 - maxSize opts)"
      using True len1 by simp
    have step: "evictOldest opts (entry # entries) (store, evicted) =
            evictOldest opts entries (store1, if onEvict opts then evicted @ [notified entry] else evicted)"
      using True entry by (simp add: evict_def store1_def notified_def)
    have tk: "take (Suc (length store1 - maxSize opts)) (entry # entries)
                = entry # take (length store1 - maxSize opts) entries"
      by simp
    have stores: "filter (\<lambda>p. p \<notin> set (take (length store1 - maxSize opts) entries)) store1
        = filter (\<lambda>p. p \<notin> set (entry # take (length store1 - maxSize opts) entries)) store"
      unfolding store1 filter_filter by (rule filter_cong [OF refl]) auto
    show ?thesis
      unfolding step Cons.IH [OF d1 d2 sub1] m tk stores by simp
  qed
qed


lemma cleanup_eq:
  assumes "distinct (map fst store)"
  shows "cleanup opts now store =
           (filter (\<lambda>p. p \<notin> set (oldestEntries opts now store)) (liveEntries now store),
            if onEvict opts then map notified (filter (expired now) store @ oldestEntries opts now store) else [])"
proof -
  define live where "live = liveEntries now store"
  define ordered where "ordered = sort_key (\<lambda>entry. lastAccess (snd entry)) live"
  define swept where "swept = evictExpired opts now store (store, [])"
  have swept: "swept = (live, if onEvict opts then map notified (filter (expired now) store) else [])"
    unfolding swept_def evictExpired_eq filter_expired_keys [OF assms] live_def liveEntries_def by simp
  have oldest: "oldestEntries opts now store = take (length live - maxSize opts) ordered"
    by (simp add: oldestEntries_def live_def ordered_def)
  have dlive: "distinct (map fst live)"
    unfolding live_def liveEntries_def using assms by (rule distinct_map_filter)
  have dordered: "distinct (map fst ordered)"
    using dlive unfolding ordered_def by (simp add: distinct_map)
  have sub: "set ordered \<subseteq> set live"
    by (simp add: ordered_def)
  show ?thesis
  proof (cases "length live > maxSize opts")
    case True
    have "cleanup opts now store = evictOldest opts ordered swept"
      using True swept unfolding cleanup_def swept_def [symmetric] Let_def ordered_def by simp
    also have "\<dots> = (filter (\<lambda>p. p \<notin> set (take (length live - maxSize opts) ordered)) live,
          if onEvict opts
          then (if onEvict opts then map notified (filter (expired now) store) else [])
                 @ map notified (take (length live - maxSize opts) ordered)
          else (if onEvict opts then map notified (filter (expired now) store) else []))"
      unfolding swept by (rule evictOldest_eq [OF dlive dordered sub])
    finally show ?thesis
      unfolding oldest live_def [symmetric] by simp
  next
    case False
    have "cleanup opts now store = swept"
      using False swept unfolding cleanup_def swept_def [symmetric] Let_def by simp
    moreover have "oldestEntries opts now store = []"
      using False unfolding oldest by simp
    ultimately show ?thesis
      unfolding swept live_def [symmetric] by simp
  qed
qed

lemma oldest_facts:
  assumes "distinct (map fst store)"
  shows "set (oldestEntries opts now store) \<subseteq> set (liveEntries now store)"
    and "distinct (oldestEntries opts now store)"
    and "length (oldestEntries opts now store) = length (liveEntries now store) - maxSize opts"
proof -
  have "distinct (liveEntries now store)"
    using assms unfolding liveEntries_def by (simp add: distinct_map)
  then show "distinct (oldestEntries opts now store)"
    unfolding oldestEntries_def by simp
  show "set (oldestEntries opts now store) \<subseteq> set (liveEntries now store)"
    unfolding oldestEntries_def using set_take_subset [of _ "sort_key (\<lambda>entry. lastAccess (snd entry)) (liveEntries now store)"]
    by auto
  show "length (oldestEntries opts now store) = length (liveEntries now store) - maxSize opts"
    unfolding oldestEntries_def by simp
qed

lemma length_after_cleanup:
  assumes "distinct (map fst store)"
  shows "length (fst (cleanup opts now store)) = min (length (liveEntries now store)) (maxSize opts)"
proof -
  let ?live = "liveEntries now store" and ?old = "oldestEntries opts now store"
  have dlive: "distinct ?live"
    using assms unfolding liveEntries_def by (simp add: distinct_map)
  have "length (filter (\<lambda>p. p \<in> set ?old) ?live) = card (set ?old \<inter> set ?live)"
    using dlive by (simp add: distinct_length_filter Collect_mem_eq)
  also have "set ?old \<inter> set ?live = set ?old"
    using oldest_facts(1) [OF assms] by blast
  also have "card (set ?old) = length ?old"
    using oldest_facts(2) [OF assms] by (rule distinct_card)
  finally have "length (filter (\<lambda>p. p \<in> set ?old) ?live) = length ?live - maxSize opts"
    using oldest_facts(3) [OF assms] by simp
  moreover have "length (filter (\<lambda>p. p \<in> set ?old) ?live) + length (filter (\<lambda>p. p \<notin> set ?old) ?live) = length ?live"
    by (rule sum_length_filter_compl)
  ultimately have "length (filter (\<lambda>p. p \<notin> set ?old) ?live) = min (length ?live) (maxSize opts)"
    by linarith
  then show ?thesis
    by (simp add: cleanup_eq [OF assms])
qed

lemma oldest_before_kept:
  assumes "e \<in> set (oldestEntries opts now store)"
    and "r \<in> set (liveEntries now store)" and "r \<notin> set (oldestEntries opts now store)"
  shows "lastAccess (snd e) \<le> lastAccess (snd r)"
proof -
  define ordered where "ordered = sort_key (\<lambda>entry. lastAccess (snd entry)) (liveEntries now store)"
  define m where "m = length (liveEntries now store) - maxSize opts"
  have old: "oldestEntries opts now store = take m ordered"
    by (simp add: oldestEntries_def ordered_def m_def)
  have "sorted (map (\<lambda>entry. lastAccess (snd entry)) ordered)"
    unfolding ordered_def by (rule sorted_sort_key)
  then have srt: "sorted (map (\<lambda>entry. lastAccess (snd entry)) (take m ordered)
                    @ map (\<lambda>entry. lastAccess (snd entry)) (drop m ordered))"
    by (simp flip: map_append)
  have "r \<in> set ordered" using assms(2) by (simp add: ordered_def)
  then have "r \<in> set (take m ordered) \<union> set (drop m ordered)"
    by (simp flip: set_append)
  then have r: "r \<in> set (drop m ordered)"
    using assms(3) old by simp
  have e: "e \<in> set (take m ordered)" using assms(1) old by simp
  show ?thesis
    using srt e r unfolding sorted_append by auto
qed

text \<open>
  C9. On a store whose keys are distinct (as the keys of a \<^verbatim>\<open>Map\<close> are), a cleanup pass
  removes the entries with \<open>expiresAt \<le> now\<close> and then, of the remaining ones, the
  \<open>size - maxSize\<close> least recently accessed, in ascending \<open>lastAccess\<close> order: the callback log
  lists the expired entries first and the oldest entries after them, in that order. No entry
  left has expired, every entry evicted for capacity was accessed no later than every entry
  left, no more entries are evicted than needed, and the store size after the pass is at most
  \<open>maxSize\<close>.
\<close>

theorem cleanup_capacity:
  assumes "distinct (map fst store)"
  shows "fst (cleanup opts now store)
           = filter (\<lambda>entry. entry \<notin> set (oldestEntries opts now store)) (liveEntries now store)
       \<and> (onEvict opts \<longrightarrow> snd (cleanup opts now store)
             = map notified (filter (expired now) store @ oldestEntries opts now store))
       \<and> (\<forall>entry \<in> set (fst (cleanup opts now store)). \<not> expiresAt (snd entry) \<le> now)
       \<and> length (fst (cleanup opts now store)) = min (length (liveEntries now store)) (maxSize opts)
       \<and> length (fst (cleanup opts now store)) \<le> maxSize opts
       \<and> sorted (map (\<lambda>entry. lastAccess (snd entry)) (oldestEntries opts now store))
       \<and> (\<forall>e \<in> set (oldestEntries opts now store). \<forall>r \<in> set (fst (cleanup opts now store)).
             lastAccess (snd e) \<le> lastAccess (snd r))"
proof -
  have eq: "fst (cleanup opts now store)
           = filter (\<lambda>entry. entry \<notin> set (oldestEntries opts now store)) (liveEntries now store)"
    by (simp add: cleanup_eq [OF assms])
  have log: "snd (cleanup opts now store)
             = map notified (filter (expired now) store @ oldestEntries opts now store)" if "onEvict opts"
    using that by (simp add: cleanup_eq [OF assms])
  have live: "\<forall>entry \<in> set (fst (cleanup opts now store)). \<not> expiresAt (snd entry) \<le> now"
    unfolding eq by (simp add: liveEntries_def expired_def)
  have len: "length (fst (cleanup opts now store)) = min (length (liveEntries now store)) (maxSize opts)"
    by (rule length_after_cleanup [OF assms])
  have srt: "sorted (map (\<lambda>entry. lastAccess (snd entry)) (oldestEntries opts now store))"
    unfolding oldestEntries_def take_map [symmetric] by (intro sorted_wrt_take sorted_sort_key)
  have lru: "\<forall>e \<in> set (oldestEntries opts now store). \<forall>r \<in> set (fst (cleanup opts now store)).
             lastAccess (snd e) \<le> lastAccess (snd r)"
    unfolding eq using oldest_before_kept [of _ opts now store] by simp
  show ?thesis
    using eq log live len srt lru by simp
qed

theorem cleanup_capacity_witness:
  "distinct (map fst
      [(''a'', \<lparr>cvalue = (1::nat), expiresAt = 200, lastAccess = 50, isFetching = False\<rparr>),
       (''b'', \<lparr>cvalue = 2, expiresAt = 90, lastAccess = 10, isFetching = False\<rparr>),
       (''c'', \<lparr>cvalue = 3, expiresAt = 200, lastAccess = 20, isFetching = False\<rparr>),
       (''d'', \<lparr>cvalue = 4, expiresAt = 200, lastAccess = 60, isFetching = False\<rparr>)])
   \<and> cleanup \<lparr>ttl = 10, maxSize = 1, staleWhileRevalidate = False, onEvict = True\<rparr> 100
      [(''a'', \<lparr>cvalue = (1::nat), expiresAt = 200, lastAccess = 50, isFetching = False\<rparr>),
       (''b'', \<lparr>cvalue = 2, expiresAt = 90, lastAccess = 10, isFetching = False\<rparr>),
       (''c'', \<lparr>cvalue = 3, expiresAt = 200, lastAccess = 20, isFetching = False\<rparr>),
       (''d'', \<lparr>cvalue = 4, expiresAt = 200, lastAccess = 60, isFetching = False\<rparr>)]
     = ([(''d'', \<lparr>cvalue = 4, expiresAt = 200, lastAccess = 60, isFetching = False\<rparr>)],
        [(''b'', 2), (''c'', 3), (''a'', 1)])
   \<and> length [(''d'', \<lparr>cvalue = (4::nat), expiresAt = 200, lastAccess = 60, isFetching = False\<rparr>)]
       \<le> maxSize \<lparr>ttl = 10, maxSize = 1, staleWhileRevalidate = False, onEvict = True\<rparr>"
proof -
  let ?opts = "\<lparr>ttl = 10, maxSize = 1, staleWhileRevalidate = False, onEvict = True\<rparr>"
  let ?store = "[(''a'', \<lparr>cvalue = (1::nat), expiresAt = 200, lastAccess = 50, isFetching = False\<rparr>),
       (''b'', \<lparr>cvalue = 2, expiresAt = 90, lastAccess = 10, isFetching = False\<rparr>),
       (''c'', \<lparr>cvalue = 3, expiresAt = 200, lastAccess = 20, isFetching = False\<rparr>),
       (''d'', \<lparr>cvalue = 4, expiresAt = 200, lastAccess = 60, isFetching = False\<rparr>)]"
  have h: "distinct (map fst ?store)" by simp
  have live: "liveEntries 100 ?store =
      [(''a'', \<lparr>cvalue = (1::nat), expiresAt = 200, lastAccess = 50, isFetching = False\<rparr>),
       (''c'', \<lparr>cvalue = 3, expiresAt = 200, lastAccess = 20, isFetching = False\<rparr>),
       (''d'', \<lparr>cvalue = 4, expiresAt = 200, lastAccess = 60, isFetching = False\<rparr>)]"
    by (simp add: liveEntries_def expired_def)
  have old: "oldestEntries ?opts 100 ?store =
      [(''c'', \<lparr>cvalue = (3::nat), expiresAt = 200, lastAccess = 20, isFetching = False\<rparr>),
       (''a'', \<lparr>cvalue = 1, expiresAt = 200, lastAccess = 50, isFetching = False\<rparr>)]"
    unfolding oldestEntries_def live by (simp add: eval_nat_numeral)
  show ?thesis
    using cleanup_capacity [OF h, of ?opts 100] h
    unfolding live old by (simp add: prod_eq_iff expired_def notified_def)
qed

section \<open>RequestDeduplicator: properties\<close>





lemma cleanup_drops:
  "pendingRequests d key = Some request \<Longrightarrow> now - timestamp request > maxAge opts \<Longrightarrow>
     pendingRequests (Deduplicator_cleanup opts now d) key = None"
  by (simp add: Deduplicator_cleanup_def)


lemma cleanups_idle:
  "pendingRequests d key = None \<Longrightarrow> pendingRequests (Deduplicator_cleanups opts nows d) key = None"
  by (induction nows arbitrary: d) (simp_all add: Deduplicator_cleanup_def)




section \<open>ContentFetcher: properties\<close>

text \<open>
  C1, as amended. In every attempt of \<^verbatim>\<open>ContentFetcher.fetch\<close>, every response that is not OK,
  whatever its status (429, 500 and above, another 4xx, or anything else outside 200 to 299),
  fails the attempt with the network error carrying the target and the status, and leaves the
  cache as it was; and whatever the network call throws, the abort error of an attempt that
  outlived its timer included, is rethrown unchanged.
\<close>

theorem fetch_attempt_failures:
  assumes "network w = (outcome, w')"
  shows "(\<forall>res. outcome = Inr res \<and> \<not> ok res \<longrightarrow>
            fetchWithRetry opts target now network (store, w)
              = (Inl (NetworkError ''Failed to fetch content'' (Some target) (Some (status res))), (store, w'))
            \<and> code (NetworkError ''Failed to fetch content'' (Some target) (Some (status res))) = Some ''NETWORK_ERROR'')
       \<and> (\<forall>e. outcome = Inl e \<longrightarrow>
            fetchWithRetry opts target now network (store, w) = (Inl e, (store, w')))"
  using assms by (simp add: fetchWithRetry_def)

theorem fetch_attempt_failures_witness:
  "\<not> ok \<lparr>status = 503, body = ''unavailable'', url = ''https://example.com/form''\<rparr>
   \<and> fetchWithRetry \<lparr>ttl = 300000, maxSize = 100, staleWhileRevalidate = False, onEvict = False\<rparr>
        ''https://example.com/form'' 0
        (\<lambda>w::nat. (Inr \<lparr>status = 503, body = ''unavailable'', url = ''https://example.com/form''\<rparr>, Suc w)) ([], 0)
       = (Inl (NetworkError ''Failed to fetch content'' (Some ''https://example.com/form'') (Some 503)), ([], 1))
   \<and> fetchWithRetry \<lparr>ttl = 300000, maxSize = 100, staleWhileRevalidate = False, onEvict = False\<rparr>
        ''https://example.com/form'' 0
        (\<lambda>w::nat. (Inl (JsError ''AbortError'' ''The operation was aborted.''), Suc w)) ([], 0)
       = (Inl (JsError ''AbortError'' ''The operation was aborted.''), ([], 1))"
proof -
  let ?opts = "\<lparr>ttl = 300000, maxSize = 100, staleWhileRevalidate = False, onEvict = False\<rparr>"
  let ?res = "\<lparr>status = 503, body = ''unavailable'', url = ''https://example.com/form''\<rparr>"
  let ?abort = "JsError ''AbortError'' ''The operation was aborted.''"
  have bad: "\<not> ok ?res" by (simp add: ok_def)
  show ?thesis
    using fetch_attempt_failures
        [where network = "\<lambda>w::nat. (Inr ?res, Suc w)" and w = 0 and outcome = "Inr ?res" and w' = 1
           and opts = ?opts and target = "''https://example.com/form''" and now = 0 and store = "[]"]
      fetch_attempt_failures
        [where network = "\<lambda>w::nat. (Inl ?abort :: app_error + Response, Suc w)" and w = 0
           and outcome = "Inl ?abort" and w' = 1
           and opts = ?opts and target = "''https://example.com/form''" and now = 0 and store = "[]"]
      bad
    by simp
qed

text \<open>
  The claim as stated fails. A 429 response fails the attempt with the network error, not with
  a rate-limit error; a 404 response fails it with the network error, not with a validation
  error; and an attempt aborted by its timer fails with the abort error, not with a timeout
  error.
\<close>

theorem fetch_attempt_classification_counterexample:
  "fst (fetchWithRetry \<lparr>ttl = 300000, maxSize = 100, staleWhileRevalidate = False, onEvict = False\<rparr>
        ''https://example.com/form'' 0
        (\<lambda>w::nat. (Inr \<lparr>status = 429, body = ''slow down'', url = ''https://example.com/form''\<rparr>, Suc w)) ([], 0))
     = Inl (NetworkError ''Failed to fetch content'' (Some ''https://example.com/form'') (Some 429))
   \<and> code (NetworkError ''Failed to fetch content'' (Some ''https://example.com/form'') (Some 429))
       \<noteq> Some ''RATE_LIMIT_EXCEEDED''
   \<and> fst (fetchWithRetry \<lparr>ttl = 300000, maxSize = 100, staleWhileRevalidate = False, onEvict = False\<rparr>
        ''https://example.com/form'' 0
        (\<lambda>w::nat. (Inr \<lparr>status = 404, body = ''not found'', url = ''https://example.com/form''\<rparr>, Suc w)) ([], 0))
     = Inl (NetworkError ''Failed to fetch content'' (Some ''https://example.com/form'') (Some 404))
   \<and> code (NetworkError ''Failed to fetch content'' (Some ''https://example.com/form'') (Some 404))
       \<noteq> Some ''VALIDATION_ERROR''
   \<and> fst (fetchWithRetry \<lparr>ttl = 300000, maxSize = 100, staleWhileRevalidate = False, onEvict = False\<rparr>
        ''https://example.com/form'' 0
        (\<lambda>w::nat. (Inl (JsError ''AbortError'' ''The operation was aborted.''), Suc w)) ([], 0))
     = Inl (JsError ''AbortError'' ''The operation was aborted.'')
   \<and> code (JsError ''AbortError'' ''The operation was aborted.'') \<noteq> Some ''TIMEOUT_ERROR''"
  by (simp add: fetchWithRetry_def ok_def)

end
